theory Spec2Isabelle
  imports Main "HOL-Library.Word" "HOL-Library.Sublist"
begin

unbundle bit_operations_syntax

section \<open>The machine: ports, the operating system and the log of effects\<close>

text \<open>
  The driver in \<^verbatim>\<open>src/main.c\<close> talks to the embedded controller through the two
  primitives \<^verbatim>\<open>inb\<close> and \<^verbatim>\<open>outb\<close> of \<^verbatim>\<open>sys/io.h\<close>, asks the kernel for the ports
  with \<^verbatim>\<open>ioperm\<close>, prints with \<^verbatim>\<open>printf\<close> and \<^verbatim>\<open>perror\<close>, sleeps and creates one
  thread. None of these is code of the driver, so the hardware and the kernel are a
  parameter \<open>S\<close> of every function: a record of the three operations acting on a
  state of any type \<open>'d\<close>. Every effect is appended to a log, in the order the
  calls are made.
\<close>

type_synonym u8 = "8 word"
type_synonym port = "16 word"

datatype event =
    In port u8              \<comment> \<open>\<^verbatim>\<open>inb(port)\<close> returned the byte\<close>
  | Out u8 port             \<comment> \<open>\<^verbatim>\<open>outb(value, port)\<close>\<close>
  | Ioperm port nat int int \<comment> \<open>\<^verbatim>\<open>ioperm(from, num, turn_on)\<close> and its result\<close>
  | Stdout string           \<comment> \<open>one \<^verbatim>\<open>printf\<close> call, formatted\<close>
  | Perror string           \<comment> \<open>\<^verbatim>\<open>perror(s)\<close>\<close>
  | Sleep nat               \<comment> \<open>\<^verbatim>\<open>sleep(seconds)\<close>\<close>
  | ThreadCreate            \<comment> \<open>\<^verbatim>\<open>pthread_create\<close> of the monitor thread\<close>

record 'd sys =
  sys_inb :: "port \<Rightarrow> 'd \<Rightarrow> u8 \<times> 'd"
  sys_outb :: "u8 \<Rightarrow> port \<Rightarrow> 'd \<Rightarrow> 'd"
  sys_ioperm :: "port \<Rightarrow> nat \<Rightarrow> int \<Rightarrow> 'd \<Rightarrow> int \<times> 'd"

record 'd world =
  hw :: 'd
  log :: "event list"

definition EC_SC :: port where
  "EC_SC = 0x66"

definition EC_DATA :: port where
  "EC_DATA = 0x62"

definition inb :: "'d sys \<Rightarrow> port \<Rightarrow> 'd world \<Rightarrow> u8 \<times> 'd world" where
  "inb S p w =
     (case sys_inb S p (hw w) of (v, d) \<Rightarrow> (v, w\<lparr>hw := d, log := log w @ [In p v]\<rparr>))"

definition outb :: "'d sys \<Rightarrow> u8 \<Rightarrow> port \<Rightarrow> 'd world \<Rightarrow> 'd world" where
  "outb S v p w = w\<lparr>hw := sys_outb S v p (hw w), log := log w @ [Out v p]\<rparr>"

definition ioperm :: "'d sys \<Rightarrow> port \<Rightarrow> nat \<Rightarrow> int \<Rightarrow> 'd world \<Rightarrow> int \<times> 'd world" where
  "ioperm S from num turn_on w =
     (case sys_ioperm S from num turn_on (hw w) of
        (r, d) \<Rightarrow> (r, w\<lparr>hw := d, log := log w @ [Ioperm from num turn_on r]\<rparr>))"

definition printf :: "string \<Rightarrow> 'd world \<Rightarrow> 'd world" where
  "printf s w = w\<lparr>log := log w @ [Stdout s]\<rparr>"

definition perror :: "string \<Rightarrow> 'd world \<Rightarrow> 'd world" where
  "perror s w = w\<lparr>log := log w @ [Perror s]\<rparr>"

definition sleep :: "nat \<Rightarrow> 'd world \<Rightarrow> 'd world" where
  "sleep n w = w\<lparr>log := log w @ [Sleep n]\<rparr>"

subsection \<open>The conversions of \<^verbatim>\<open>printf\<close> the driver uses\<close>

definition newline :: string where
  "newline = [CHR 0x0A]"

definition digit_char :: "nat \<Rightarrow> char" where
  "digit_char n = ''0123456789ABCDEF'' ! (n mod 16)"

text \<open>\<^verbatim>\<open>%02X\<close> of a byte: two upper-case hexadecimal digits.\<close>

definition hex02 :: "u8 \<Rightarrow> string" where
  "hex02 v = [digit_char (unat v div 16), digit_char (unat v mod 16)]"

text \<open>\<^verbatim>\<open>%d\<close> of a value that is never negative (a byte promoted to \<^verbatim>\<open>int\<close>).\<close>

fun dec :: "nat \<Rightarrow> string" where
  "dec n = (if n < 10 then [digit_char n] else dec (n div 10) @ [digit_char (n mod 10)])"

declare dec.simps [simp del]

section \<open>The transaction engine\<close>

text \<open>
  \<^verbatim>\<open>while (inb(EC_SC) & 0x02);\<close> and \<^verbatim>\<open>while (!(inb(EC_SC) & 0x01));\<close>
  have no bound: a wait that never returns is the value \<open>None\<close>.
\<close>

partial_function (option) ec_wait_ibf :: "'d sys \<Rightarrow> 'd world \<Rightarrow> 'd world option" where
  "ec_wait_ibf S w =
     (case inb S EC_SC w of
        (v, w') \<Rightarrow> if v AND 0x02 \<noteq> 0 then ec_wait_ibf S w' else Some w')"

partial_function (option) ec_wait_obf :: "'d sys \<Rightarrow> 'd world \<Rightarrow> 'd world option" where
  "ec_wait_obf S w =
     (case inb S EC_SC w of
        (v, w') \<Rightarrow> if \<not> (v AND 0x01 \<noteq> 0) then ec_wait_obf S w' else Some w')"

declare ec_wait_ibf.simps [code]
declare ec_wait_obf.simps [code]

definition ec_read :: "'d sys \<Rightarrow> u8 \<Rightarrow> 'd world \<Rightarrow> (u8 \<times> 'd world) option" where
  "ec_read S addr w =
     (case ec_wait_ibf S w of None \<Rightarrow> None | Some w1 \<Rightarrow>
      (case ec_wait_ibf S (outb S 0x80 EC_SC w1) of None \<Rightarrow> None | Some w2 \<Rightarrow>
       (case ec_wait_obf S (outb S addr EC_DATA w2) of None \<Rightarrow> None | Some w3 \<Rightarrow>
          Some (inb S EC_DATA w3))))"

definition ec_write :: "'d sys \<Rightarrow> u8 \<Rightarrow> u8 \<Rightarrow> 'd world \<Rightarrow> 'd world option" where
  "ec_write S addr val w =
     (case ec_wait_ibf S w of None \<Rightarrow> None | Some w1 \<Rightarrow>
      (case ec_wait_ibf S (outb S 0x81 EC_SC w1) of None \<Rightarrow> None | Some w2 \<Rightarrow>
       (case ec_wait_ibf S (outb S addr EC_DATA w2) of None \<Rightarrow> None | Some w3 \<Rightarrow>
          Some (outb S val EC_DATA w3))))"

section \<open>Permission, the snapshot, the monitor and the diagnostic read\<close>


definition registers :: "u8 list" where
  "registers = [0x50, 0x51, 0x52, 0x53, 0x54, 0x55, 0x56, 0x57, 0x58, 0x59]"

text \<open>The \<^verbatim>\<open>switch\<close> of \<^verbatim>\<open>ec_dump_selected\<close>.\<close>

definition interpret_register :: "u8 \<Rightarrow> u8 \<Rightarrow> 'd world \<Rightarrow> 'd world" where
  "interpret_register r v w =
     (if r = 0x50 then printf (''Temperature: '' @ dec (unat v) @ newline) w
      else if r = 0x51 then printf (''Fan Speed: '' @ dec (unat v) @ newline) w
      else if r = 0x52 then printf (''Flag: '' @ dec (unat (v AND 0x01)) @ newline) w
      else w)"

function dump_loop :: "'d sys \<Rightarrow> nat \<Rightarrow> 'd world \<Rightarrow> 'd world option" where
  "dump_loop S i w =
     (if i < length registers then
        (case ec_read S (registers ! i) w of
           None \<Rightarrow> None
         | Some (v, w1) \<Rightarrow>
             dump_loop S (i + 1)
               (interpret_register (registers ! i) v
                  (printf (''Register 0x'' @ hex02 (registers ! i) @ '': 0x'' @ hex02 v @ newline) w1)))
      else Some w)"
  by pat_completeness auto
termination
  by (relation "measure (\<lambda>(S, i, w). length registers - i)") auto

declare dump_loop.simps [simp del]

definition ec_dump_selected :: "'d sys \<Rightarrow> 'd world \<Rightarrow> 'd world option" where
  "ec_dump_selected S w =
     dump_loop S 0 (printf (''Dumping SSRM region (0x50-0x59)...'' @ newline) w)"

text \<open>
  The heading and the first \<open>k\<close> iterations of the \<^verbatim>\<open>for\<close> loop, for looking at
  a call that hangs in a later one.
\<close>

fun dump_iterations :: "'d sys \<Rightarrow> nat \<Rightarrow> 'd world \<Rightarrow> 'd world option" where
  "dump_iterations S 0 w = Some (printf (''Dumping SSRM region (0x50-0x59)...'' @ newline) w)"
| "dump_iterations S (Suc k) w =
     (case dump_iterations S k w of
        None \<Rightarrow> None
      | Some w1 \<Rightarrow>
          (case ec_read S (registers ! k) w1 of
             None \<Rightarrow> None
           | Some (v, w2) \<Rightarrow>
               Some (interpret_register (registers ! k) v
                 (printf (''Register 0x'' @ hex02 (registers ! k) @ '': 0x'' @ hex02 v @ newline)
                    w2))))"

text \<open>The body of the \<^verbatim>\<open>while (true)\<close> of \<^verbatim>\<open>ec_monitor_loop\<close>: one tick.\<close>

definition monitor_tick :: "'d sys \<Rightarrow> 'd world \<Rightarrow> 'd world option" where
  "monitor_tick S w =
     (case ec_read S 0x00 w of
        None \<Rightarrow> None
      | Some (temp, w1) \<Rightarrow>
          Some (sleep 1
            (if temp > 75
             then printf (''Warning: High temperature detected: '' @ dec (unat temp) @ newline) w1
             else w1)))"

partial_function (option) monitor_while :: "'d sys \<Rightarrow> 'd world \<Rightarrow> 'd world option" where
  "monitor_while S w =
     (case monitor_tick S w of None \<Rightarrow> None | Some w' \<Rightarrow> monitor_while S w')"

declare monitor_while.simps [code]

text \<open>The first \<open>n\<close> ticks of the loop, for looking at a run that never ends.\<close>

fun monitor_ticks :: "'d sys \<Rightarrow> nat \<Rightarrow> 'd world \<Rightarrow> 'd world option" where
  "monitor_ticks S 0 w = Some w"
| "monitor_ticks S (Suc n) w =
     (case monitor_tick S w of None \<Rightarrow> None | Some w' \<Rightarrow> monitor_ticks S n w')"


definition acpi_check :: "'d sys \<Rightarrow> 'd world \<Rightarrow> 'd world option" where
  "acpi_check S w =
     (case ec_read S 0x01 (printf (''Checking ACPI flags...'' @ newline) w) of
        None \<Rightarrow> None
      | Some (acpi_flag, w1) \<Rightarrow> Some (printf (''ACPI Flag: 0x'' @ hex02 acpi_flag @ newline) w1))"

section \<open>Observing a run\<close>

text \<open>
  What the status port would answer next, the world after \<open>n\<close> reads of the status
  port, and the bytes those reads return. They are used to state what a wait does.
\<close>

definition status :: "'d sys \<Rightarrow> 'd world \<Rightarrow> u8" where
  "status S w = fst (inb S EC_SC w)"

fun polls :: "'d sys \<Rightarrow> nat \<Rightarrow> 'd world \<Rightarrow> 'd world" where
  "polls S 0 w = w"
| "polls S (Suc n) w = polls S n (snd (inb S EC_SC w))"

fun statuses :: "'d sys \<Rightarrow> nat \<Rightarrow> 'd world \<Rightarrow> u8 list" where
  "statuses S 0 w = []"
| "statuses S (Suc n) w = status S w # statuses S n (snd (inb S EC_SC w))"

text \<open>
  Read number \<open>n\<close> of the status port, counting from 0, is the first to show IBF
  clear, or OBF set.
\<close>

definition ibf_clear_at :: "'d sys \<Rightarrow> nat \<Rightarrow> 'd world \<Rightarrow> bool" where
  "ibf_clear_at S n w \<longleftrightarrow>
     list_all (\<lambda>k. status S (polls S k w) AND 0x02 \<noteq> 0) [0..<n] \<and>
     status S (polls S n w) AND 0x02 = 0"

definition obf_set_at :: "'d sys \<Rightarrow> nat \<Rightarrow> 'd world \<Rightarrow> bool" where
  "obf_set_at S n w \<longleftrightarrow>
     list_all (\<lambda>k. status S (polls S k w) AND 0x01 = 0) [0..<n] \<and>
     status S (polls S n w) AND 0x01 \<noteq> 0"

text \<open>
  The world in which a transaction waits for the second time, after \<open>n1 + 1\<close> reads
  of the status port and the command byte \<open>c\<close>; and the world in which it waits for
  the third time, after \<open>n2 + 1\<close> more reads and the address.
\<close>

definition cmd_sent :: "'d sys \<Rightarrow> u8 \<Rightarrow> nat \<Rightarrow> 'd world \<Rightarrow> 'd world" where
  "cmd_sent S c n1 w = outb S c EC_SC (polls S (Suc n1) w)"

definition addr_sent :: "'d sys \<Rightarrow> u8 \<Rightarrow> u8 \<Rightarrow> nat \<Rightarrow> nat \<Rightarrow> 'd world \<Rightarrow> 'd world" where
  "addr_sent S c addr n1 n2 w = outb S addr EC_DATA (polls S (Suc n2) (cmd_sent S c n1 w))"

text \<open>
  The status bytes seen by one wait: every byte but the last has the awaited
  condition unmet, the last one has it met.
\<close>

definition ibf_gate :: "u8 list \<Rightarrow> bool" where
  "ibf_gate s \<longleftrightarrow> s \<noteq> [] \<and> list_all (\<lambda>x. x AND 0x02 \<noteq> 0) (butlast s) \<and> last s AND 0x02 = 0"

definition obf_gate :: "u8 list \<Rightarrow> bool" where
  "obf_gate s \<longleftrightarrow> s \<noteq> [] \<and> list_all (\<lambda>x. x AND 0x01 = 0) (butlast s) \<and> last s AND 0x01 \<noteq> 0"

text \<open>The port accesses of one read-register transaction.\<close>

definition read_accesses :: "u8 \<Rightarrow> u8 \<Rightarrow> u8 list \<Rightarrow> u8 list \<Rightarrow> u8 list \<Rightarrow> event list" where
  "read_accesses addr v s1 s2 s3 =
     map (In EC_SC) s1 @ [Out 0x80 EC_SC] @
     map (In EC_SC) s2 @ [Out addr EC_DATA] @
     map (In EC_SC) s3 @ [In EC_DATA v]"

definition read_transaction :: "u8 \<Rightarrow> u8 \<Rightarrow> event list \<Rightarrow> bool" where
  "read_transaction addr v t \<longleftrightarrow>
     (\<exists>s1 s2 s3. ibf_gate s1 \<and> ibf_gate s2 \<and> obf_gate s3 \<and> t = read_accesses addr v s1 s2 s3)"

section \<open>A simulated controller\<close>

text \<open>
  Modelled from the spec: the test double of the testable properties, "a simulated EC
  that echoes writes", "implementing the IBF/OBF handshake"; the repository has no such
  double. After every byte it accepts, the controller reports IBF for \<open>latency\<close>
  reads of the status port, and while it reports IBF it is deaf: a byte written to
  either port is lost, OBF is not shown, and the data port reads \<open>0x00\<close> and keeps
  the output buffer. So a host has to see IBF clear before every write and OBF set
  before it reads. Command \<open>0x80\<close> followed by an address on the data port puts
  that register into the output buffer; command \<open>0x81\<close> followed by an address and
  a value stores the value. Reading the data port when OBF is shown empties the output
  buffer. \<open>permit\<close> is the kernel's answer to \<^verbatim>\<open>ioperm\<close>.
\<close>

datatype phase = Idle | ReadCmd | WriteCmd | WriteAddr u8

record sim =
  regs :: "u8 \<Rightarrow> u8"
  phase :: phase
  obuf :: "u8 option"
  busy :: nat
  latency :: nat
  permit :: bool

definition sim_inb :: "port \<Rightarrow> sim \<Rightarrow> u8 \<times> sim" where
  "sim_inb p d =
     (if p = EC_SC then
        (if busy d > 0 then (0x02, d\<lparr>busy := busy d - 1\<rparr>)
         else (if obuf d = None then 0x00 else 0x01, d))
      else if p = EC_DATA then
        (if busy d > 0 then (0x00, d)
         else (case obuf d of None \<Rightarrow> (0x00, d) | Some v \<Rightarrow> (v, d\<lparr>obuf := None\<rparr>)))
      else (0xFF, d))"

definition sim_outb :: "u8 \<Rightarrow> port \<Rightarrow> sim \<Rightarrow> sim" where
  "sim_outb v p d =
     (if busy d > 0 then d
      else if p = EC_SC then
        d\<lparr>phase := (if v = 0x80 then ReadCmd else if v = 0x81 then WriteCmd else Idle),
          busy := latency d\<rparr>
      else if p = EC_DATA then
        (case phase d of
           Idle \<Rightarrow> d\<lparr>busy := latency d\<rparr>
         | ReadCmd \<Rightarrow> d\<lparr>obuf := Some (regs d v), phase := Idle, busy := latency d\<rparr>
         | WriteCmd \<Rightarrow> d\<lparr>phase := WriteAddr v, busy := latency d\<rparr>
         | WriteAddr a \<Rightarrow> d\<lparr>regs := (regs d)(a := v), phase := Idle, busy := latency d\<rparr>)
      else d)"

definition sim_ioperm :: "port \<Rightarrow> nat \<Rightarrow> int \<Rightarrow> sim \<Rightarrow> int \<times> sim" where
  "sim_ioperm from num turn_on d = (if permit d then 0 else - 1, d)"

definition sim_ec :: "sim sys" where
  "sim_ec = \<lparr>sys_inb = sim_inb, sys_outb = sim_outb, sys_ioperm = sim_ioperm\<rparr>"

text \<open>A controller at rest with register contents \<open>r\<close> and an empty log.\<close>

definition sim_init :: "(u8 \<Rightarrow> u8) \<Rightarrow> nat \<Rightarrow> bool \<Rightarrow> sim world" where
  "sim_init r n ok =
     \<lparr>hw = \<lparr>regs = r, phase = Idle, obuf = None, busy = n, latency = n, permit = ok\<rparr>,
      log = []\<rparr>"

text \<open>
  Modelled from the spec: the hardware fault of its failure semantics, a controller
  that never clears IBF. Every port reads \<open>0x02\<close> and every write is ignored.
\<close>

definition stuck_ec :: "unit sys" where
  "stuck_ec = \<lparr>sys_inb = (\<lambda>p d. (0x02, d)), sys_outb = (\<lambda>v p d. d),
     sys_ioperm = (\<lambda>from num turn_on d. (0, d))\<rparr>"

section \<open>What the log shows\<close>

definition prints :: "event list \<Rightarrow> string list" where
  "prints l = concat (map (\<lambda>e. case e of Stdout s \<Rightarrow> [s] | _ \<Rightarrow> []) l)"

fun port_access :: "event \<Rightarrow> bool" where
  "port_access (In p v) = True"
| "port_access (Out v p) = True"
| "port_access e = False"

text \<open>What the snapshot prints for register \<open>a\<close> holding \<open>v\<close>.\<close>

definition record_events :: "u8 \<Rightarrow> u8 \<Rightarrow> event list" where
  "record_events a v =
     Stdout (''Register 0x'' @ hex02 a @ '': 0x'' @ hex02 v @ newline) #
     (if a = 0x50 then [Stdout (''Temperature: '' @ dec (unat v) @ newline)]
      else if a = 0x51 then [Stdout (''Fan Speed: '' @ dec (unat v) @ newline)]
      else if a = 0x52 then
        [Stdout (''Flag: '' @ (if v AND 0x01 = 0 then ''0'' else ''1'') @ newline)]
      else [])"

section \<open>The process as a machine\<close>

text \<open>
  \<^verbatim>\<open>main\<close> runs \<^verbatim>\<open>ec_init\<close> and \<^verbatim>\<open>ec_dump_selected\<close>, creates the monitor thread,
  and then runs \<^verbatim>\<open>acpi_check\<close> and \<^verbatim>\<open>pthread_join\<close> while the new thread runs
  \<^verbatim>\<open>ec_monitor_loop\<close>, on the same two ports and with no synchronisation between the
  two in the source. A port access is one machine instruction, so the scheduler can
  switch threads between any two of them. Each thread is therefore a machine that
  makes one effect per step, with a control point for every place in its code where the
  next effect is about to be made. A run of the process is observed after any number of
  steps, also when it never ends.
\<close>

datatype tid = Main | Monitor

definition pthread_create :: "'d world \<Rightarrow> 'd world" where
  "pthread_create w = w\<lparr>log := log w @ [ThreadCreate]\<rparr>"

text \<open>The six port accesses of \<^verbatim>\<open>ec_read\<close>, one control point before each.\<close>

datatype rd_pc = RdWaitIbf1 | RdCmd | RdWaitIbf2 | RdAddr | RdWaitObf | RdData

definition ec_read_step :: "'d sys \<Rightarrow> u8 \<Rightarrow> rd_pc \<Rightarrow> 'd world \<Rightarrow> (rd_pc + u8) \<times> 'd world" where
  "ec_read_step S addr pc w =
     (case pc of
        RdWaitIbf1 \<Rightarrow>
          (case inb S EC_SC w of
             (v, w') \<Rightarrow> (Inl (if v AND 0x02 \<noteq> 0 then RdWaitIbf1 else RdCmd), w'))
      | RdCmd \<Rightarrow> (Inl RdWaitIbf2, outb S 0x80 EC_SC w)
      | RdWaitIbf2 \<Rightarrow>
          (case inb S EC_SC w of
             (v, w') \<Rightarrow> (Inl (if v AND 0x02 \<noteq> 0 then RdWaitIbf2 else RdAddr), w'))
      | RdAddr \<Rightarrow> (Inl RdWaitObf, outb S addr EC_DATA w)
      | RdWaitObf \<Rightarrow>
          (case inb S EC_SC w of
             (v, w') \<Rightarrow> (Inl (if \<not> (v AND 0x01 \<noteq> 0) then RdWaitObf else RdData), w'))
      | RdData \<Rightarrow> (case inb S EC_DATA w of (v, w') \<Rightarrow> (Inr v, w')))"

text \<open>One thread alone making at most \<open>n\<close> steps of \<^verbatim>\<open>ec_read\<close>.\<close>

fun ec_read_steps ::
  "'d sys \<Rightarrow> u8 \<Rightarrow> nat \<Rightarrow> (rd_pc + u8) \<times> 'd world \<Rightarrow> (rd_pc + u8) \<times> 'd world" where
  "ec_read_steps S addr 0 x = x"
| "ec_read_steps S addr (Suc n) (Inr v, w) = (Inr v, w)"
| "ec_read_steps S addr (Suc n) (Inl pc, w) = ec_read_steps S addr n (ec_read_step S addr pc w)"

text \<open>The rest of the body of \<^verbatim>\<open>ec_read\<close> from a control point on.\<close>

definition ec_read_from :: "'d sys \<Rightarrow> u8 \<Rightarrow> rd_pc \<Rightarrow> 'd world \<Rightarrow> (u8 \<times> 'd world) option" where
  "ec_read_from S addr pc w =
     (case pc of
        RdWaitIbf1 \<Rightarrow> ec_read S addr w
      | RdCmd \<Rightarrow>
          (case ec_wait_ibf S (outb S 0x80 EC_SC w) of None \<Rightarrow> None | Some w2 \<Rightarrow>
           (case ec_wait_obf S (outb S addr EC_DATA w2) of None \<Rightarrow> None | Some w3 \<Rightarrow>
              Some (inb S EC_DATA w3)))
      | RdWaitIbf2 \<Rightarrow>
          (case ec_wait_ibf S w of None \<Rightarrow> None | Some w2 \<Rightarrow>
           (case ec_wait_obf S (outb S addr EC_DATA w2) of None \<Rightarrow> None | Some w3 \<Rightarrow>
              Some (inb S EC_DATA w3)))
      | RdAddr \<Rightarrow>
          (case ec_wait_obf S (outb S addr EC_DATA w) of None \<Rightarrow> None | Some w3 \<Rightarrow>
             Some (inb S EC_DATA w3))
      | RdWaitObf \<Rightarrow>
          (case ec_wait_obf S w of None \<Rightarrow> None | Some w3 \<Rightarrow> Some (inb S EC_DATA w3))
      | RdData \<Rightarrow> Some (inb S EC_DATA w))"

text \<open>
  The control points of the main thread, in the order of the code: the two
  \<^verbatim>\<open>ioperm\<close> calls of \<^verbatim>\<open>ec_init\<close> and its \<^verbatim>\<open>perror\<close>; in \<^verbatim>\<open>ec_dump_selected\<close> the
  heading and, for the register of index \<open>i\<close>, the accesses of \<^verbatim>\<open>ec_read\<close>, the line
  with the raw value and the line of the \<^verbatim>\<open>switch\<close>; \<^verbatim>\<open>pthread_create\<close>; in
  \<^verbatim>\<open>acpi_check\<close> the first \<^verbatim>\<open>printf\<close>, the accesses of \<^verbatim>\<open>ec_read(0x01)\<close> and the
  second \<^verbatim>\<open>printf\<close>; \<^verbatim>\<open>pthread_join\<close>; and the end of the process, by \<^verbatim>\<open>exit(1)\<close>
  or by \<^verbatim>\<open>return 0\<close>.
\<close>

datatype main_pc =
    InitSc | InitData | InitFail
  | DumpPrint | DumpRead nat rd_pc | DumpLine nat u8 | DumpLabel nat u8
  | Create
  | AcpiPrint | AcpiRead rd_pc | AcpiReport u8
  | Join
  | Exited int

text \<open>The test of the \<^verbatim>\<open>for\<close> loop: the next register, or the end of the snapshot.\<close>

definition dump_next :: "nat \<Rightarrow> main_pc" where
  "dump_next i = (if i < length registers then DumpRead i RdWaitIbf1 else Create)"

definition has_label :: "u8 \<Rightarrow> bool" where
  "has_label r \<longleftrightarrow> r = 0x50 \<or> r = 0x51 \<or> r = 0x52"

definition main_step :: "'d sys \<Rightarrow> main_pc \<Rightarrow> 'd world \<Rightarrow> main_pc \<times> 'd world" where
  "main_step S pc w =
     (case pc of
        InitSc \<Rightarrow>
          (case ioperm S EC_SC 1 1 w of (r, w') \<Rightarrow> (if r \<noteq> 0 then InitFail else InitData, w'))
      | InitData \<Rightarrow>
          (case ioperm S EC_DATA 1 1 w of (r, w') \<Rightarrow> (if r \<noteq> 0 then InitFail else DumpPrint, w'))
      | InitFail \<Rightarrow> (Exited 1, perror ''ioperm'' w)
      | DumpPrint \<Rightarrow> (dump_next 0, printf (''Dumping SSRM region (0x50-0x59)...'' @ newline) w)
      | DumpRead i r \<Rightarrow>
          (case ec_read_step S (registers ! i) r w of
             (Inl r', w') \<Rightarrow> (DumpRead i r', w')
           | (Inr v, w') \<Rightarrow> (DumpLine i v, w'))
      | DumpLine i v \<Rightarrow>
          (if has_label (registers ! i) then DumpLabel i v else dump_next (i + 1),
           printf (''Register 0x'' @ hex02 (registers ! i) @ '': 0x'' @ hex02 v @ newline) w)
      | DumpLabel i v \<Rightarrow> (dump_next (i + 1), interpret_register (registers ! i) v w)
      | Create \<Rightarrow> (AcpiPrint, pthread_create w)
      | AcpiPrint \<Rightarrow> (AcpiRead RdWaitIbf1, printf (''Checking ACPI flags...'' @ newline) w)
      | AcpiRead r \<Rightarrow>
          (case ec_read_step S 0x01 r w of
             (Inl r', w') \<Rightarrow> (AcpiRead r', w')
           | (Inr acpi_flag, w') \<Rightarrow> (AcpiReport acpi_flag, w'))
      | AcpiReport acpi_flag \<Rightarrow>
          (Join, printf (''ACPI Flag: 0x'' @ hex02 acpi_flag @ newline) w)
      | Join \<Rightarrow> (Join, w)
      | Exited code \<Rightarrow> (Exited code, w))"

text \<open>
  The monitor thread: it does not exist before \<^verbatim>\<open>pthread_create\<close>; then the
  \<^verbatim>\<open>printf\<close> before the loop and, for ever, the accesses of \<^verbatim>\<open>ec_read(0x00)\<close>, the
  warning when \<^verbatim>\<open>temp > 75\<close>, and \<^verbatim>\<open>sleep(1)\<close>. \<open>MonReturned\<close> stands for the
  \<^verbatim>\<open>return NULL\<close> after the loop.
\<close>

datatype mon_pc = NotCreated | MonStart | MonRead rd_pc | MonWarn u8 | MonSleep | MonReturned

definition mon_step :: "'d sys \<Rightarrow> mon_pc \<Rightarrow> 'd world \<Rightarrow> mon_pc \<times> 'd world" where
  "mon_step S pc w =
     (case pc of
        NotCreated \<Rightarrow> (NotCreated, w)
      | MonStart \<Rightarrow> (MonRead RdWaitIbf1, printf (''Starting EC monitor loop...'' @ newline) w)
      | MonRead r \<Rightarrow>
          (case ec_read_step S 0x00 r w of
             (Inl r', w') \<Rightarrow> (MonRead r', w')
           | (Inr temp, w') \<Rightarrow> (if temp > 75 then MonWarn temp else MonSleep, w'))
      | MonWarn temp \<Rightarrow>
          (MonSleep,
           printf (''Warning: High temperature detected: '' @ dec (unat temp) @ newline) w)
      | MonSleep \<Rightarrow> (MonRead RdWaitIbf1, sleep 1 w)
      | MonReturned \<Rightarrow> (MonReturned, w))"

text \<open>
  The process. \<open>owners\<close> names, for every event logged since the start of \<^verbatim>\<open>main\<close>,
  the thread that made it.
\<close>

record 'd config =
  main_at :: main_pc
  mon_at :: mon_pc
  world :: "'d world"
  owners :: "tid list"

text \<open>The owner \<open>t\<close>, once for every event a step from \<open>w\<close> to \<open>w'\<close> has logged.\<close>

definition made :: "'d world \<Rightarrow> 'd world \<Rightarrow> tid \<Rightarrow> tid list" where
  "made w w' t = replicate (length (log w') - length (log w)) t"

text \<open>
  The scheduler lets thread \<open>t\<close> make its next step. A thread that does not exist or
  has returned makes none; a main thread in \<^verbatim>\<open>pthread_join\<close> goes on, to
  \<^verbatim>\<open>return 0\<close>, only when the monitor has returned; when the main thread has ended the
  process is over. \<^verbatim>\<open>pthread_create\<close> starts the monitor: the source does not look at
  its result, and the thread is taken to be created.
\<close>

definition step :: "'d sys \<Rightarrow> tid \<Rightarrow> 'd config \<Rightarrow> 'd config" where
  "step S t c =
     (case main_at c of
        Exited code \<Rightarrow> c
      | _ \<Rightarrow>
        (case t of
           Main \<Rightarrow>
             (if main_at c = Join then
                (if mon_at c = MonReturned then c\<lparr>main_at := Exited 0\<rparr> else c)
              else
                (case main_step S (main_at c) (world c) of
                   (pc, w) \<Rightarrow>
                     c\<lparr>main_at := pc,
                       mon_at := (if main_at c = Create then MonStart else mon_at c),
                       world := w, owners := owners c @ made (world c) w Main\<rparr>))
         | Monitor \<Rightarrow>
             (if mon_at c = NotCreated \<or> mon_at c = MonReturned then c
              else
                (case mon_step S (mon_at c) (world c) of
                   (pc, w) \<Rightarrow>
                     c\<lparr>mon_at := pc, world := w, owners := owners c @ made (world c) w Monitor\<rparr>))))"

definition run :: "'d sys \<Rightarrow> tid list \<Rightarrow> 'd config \<Rightarrow> 'd config" where
  "run S sched c = foldl (\<lambda>c t. step S t c) c sched"

section \<open>The coordinator\<close>

text \<open>\<^verbatim>\<open>main\<close>, observed after the scheduler has made the choices \<open>sched\<close>.\<close>

definition start :: "'d world \<Rightarrow> 'd config" where
  "start w = \<lparr>main_at = InitSc, mon_at = NotCreated, world = w, owners = []\<rparr>"

definition main :: "'d sys \<Rightarrow> tid list \<Rightarrow> 'd world \<Rightarrow> 'd config" where
  "main S sched w = run S sched (start w)"

text \<open>The events made since the start, each with the thread that made it.\<close>

definition tagged :: "'d config \<Rightarrow> (tid \<times> event) list" where
  "tagged c = zip (owners c) (drop (length (log (world c)) - length (owners c)) (log (world c)))"

definition events_of :: "tid \<Rightarrow> 'd config \<Rightarrow> event list" where
  "events_of t c = map snd (filter (\<lambda>x. fst x = t) (tagged c))"

definition accesses :: "'d config \<Rightarrow> (tid \<times> event) list" where
  "accesses c = filter (\<lambda>x. port_access (snd x)) (tagged c)"

text \<open>The condition of the \<^verbatim>\<open>if\<close> in \<^verbatim>\<open>ec_init\<close>: one of the two requests is refused.\<close>

definition permission_denied :: "'d sys \<Rightarrow> 'd world \<Rightarrow> bool" where
  "permission_denied S w \<longleftrightarrow>
     fst (ioperm S EC_SC 1 1 w) \<noteq> 0 \<or>
     fst (ioperm S EC_DATA 1 1 (snd (ioperm S EC_SC 1 1 w))) \<noteq> 0"

text \<open>
  Transactions that do not interleave: from the first port access of a read-register
  transaction to its read of the data port, no other thread touches a port. This is what
  a log looks like when every transaction runs inside one critical section.
\<close>

fun data_read :: "event \<Rightarrow> bool" where
  "data_read (In p v) = (p = EC_DATA)"
| "data_read e = False"

fun serialized_from :: "tid option \<Rightarrow> (tid \<times> event) list \<Rightarrow> bool" where
  "serialized_from holder [] = True"
| "serialized_from holder ((t, e) # l) =
     (if port_access e then
        (holder = None \<or> holder = Some t) \<and>
        serialized_from (if data_read e then None else Some t) l
      else serialized_from holder l)"

definition serialized :: "(tid \<times> event) list \<Rightarrow> bool" where
  "serialized l = serialized_from None l"

text \<open>
  Events that leave the registers of the controller alone: a port write is either the
  read command \<open>0x80\<close> to the command port or one of the addresses the program reads
  to the data port.
\<close>

fun read_only :: "event \<Rightarrow> bool" where
  "read_only (Out v p) \<longleftrightarrow>
     p = EC_SC \<and> v = 0x80 \<or> p = EC_DATA \<and> (v \<in> set registers \<or> v = 0x00 \<or> v = 0x01)"
| "read_only e \<longleftrightarrow> True"

text \<open>The accesses a read-register transaction has made when it is at a control point.\<close>

definition busy_ibf :: "u8 list \<Rightarrow> bool" where
  "busy_ibf s = list_all (\<lambda>x. x AND 0x02 \<noteq> 0) s"

definition busy_obf :: "u8 list \<Rightarrow> bool" where
  "busy_obf s = list_all (\<lambda>x. x AND 0x01 = 0) s"

inductive rd_progress :: "u8 \<Rightarrow> rd_pc \<Rightarrow> event list \<Rightarrow> bool" for addr :: u8 where
  at_wait_ibf1: "busy_ibf s \<Longrightarrow> rd_progress addr RdWaitIbf1 (map (In EC_SC) s)"
| at_cmd: "ibf_gate s1 \<Longrightarrow> rd_progress addr RdCmd (map (In EC_SC) s1)"
| at_wait_ibf2: "ibf_gate s1 \<Longrightarrow> busy_ibf s \<Longrightarrow>
    rd_progress addr RdWaitIbf2 (map (In EC_SC) s1 @ [Out 0x80 EC_SC] @ map (In EC_SC) s)"
| at_addr: "ibf_gate s1 \<Longrightarrow> ibf_gate s2 \<Longrightarrow>
    rd_progress addr RdAddr (map (In EC_SC) s1 @ [Out 0x80 EC_SC] @ map (In EC_SC) s2)"
| at_wait_obf: "ibf_gate s1 \<Longrightarrow> ibf_gate s2 \<Longrightarrow> busy_obf s \<Longrightarrow>
    rd_progress addr RdWaitObf
      (map (In EC_SC) s1 @ [Out 0x80 EC_SC] @ map (In EC_SC) s2 @ [Out addr EC_DATA] @
       map (In EC_SC) s)"
| at_data: "ibf_gate s1 \<Longrightarrow> ibf_gate s2 \<Longrightarrow> obf_gate s3 \<Longrightarrow>
    rd_progress addr RdData
      (map (In EC_SC) s1 @ [Out 0x80 EC_SC] @ map (In EC_SC) s2 @ [Out addr EC_DATA] @
       map (In EC_SC) s3)"

text \<open>Every event logged since the world \<open>w\<close> has its owner.\<close>

definition aligned :: "'d world \<Rightarrow> 'd config \<Rightarrow> bool" where
  "aligned w c \<longleftrightarrow>
     (\<exists>evs. log (world c) = log w @ evs \<and> length evs = length (owners c))"

text \<open>Inside the snapshot the index is an index of the array.\<close>

fun main_wf :: "main_pc \<Rightarrow> bool" where
  "main_wf (DumpRead i r) \<longleftrightarrow> i < length registers"
| "main_wf (DumpLine i v) \<longleftrightarrow> i < length registers"
| "main_wf (DumpLabel i v) \<longleftrightarrow> i < length registers"
| "main_wf pc \<longleftrightarrow> True"

text \<open>The simulated controller holds the registers \<open>r\<close> and is not inside a write.\<close>

definition sim_untouched :: "(u8 \<Rightarrow> u8) \<Rightarrow> sim \<Rightarrow> bool" where
  "sim_untouched r d \<longleftrightarrow> regs d = r \<and> (phase d = Idle \<or> phase d = ReadCmd)"

section \<open>What the main thread has done when it is at a control point\<close>

text \<open>
  The transactions and lines of the snapshot for the registers read so far, each
  register with the byte read and the accesses of its transaction.
\<close>

definition snapshot_events :: "(u8 \<times> event list) list \<Rightarrow> event list" where
  "snapshot_events rs =
     Stdout (''Dumping SSRM region (0x50-0x59)...'' @ newline) #
     concat (map2 (\<lambda>a (v, t). t @ record_events a v) registers rs)"

definition dump_done :: "nat \<Rightarrow> (u8 \<times> event list) list \<Rightarrow> bool" where
  "dump_done i rs \<longleftrightarrow>
     i \<le> length registers \<and>
     list_all2 (\<lambda>a (v, t). read_transaction a v t) (take i registers) rs"

definition granted_events :: "event list" where
  "granted_events = [Ioperm EC_SC 1 1 0, Ioperm EC_DATA 1 1 0]"

text \<open>
  Everything \<^verbatim>\<open>main\<close> does when permission is granted and no wait hangs, in order:
  the two requests for the ports, the snapshot, the creation of the monitor thread, and
  the diagnostic read with its two lines.
\<close>

definition coordinator_events :: "(u8 \<times> event list) list \<Rightarrow> u8 \<Rightarrow> event list \<Rightarrow> event list" where
  "coordinator_events rs v t =
     granted_events @ snapshot_events rs @ [ThreadCreate] @
     Stdout (''Checking ACPI flags...'' @ newline) # t @
     [Stdout (''ACPI Flag: 0x'' @ hex02 v @ newline)]"

inductive main_trace :: "main_pc \<Rightarrow> event list \<Rightarrow> bool" where
  at_InitSc: "main_trace InitSc []"
| at_InitData: "main_trace InitData [Ioperm EC_SC 1 1 0]"
| at_InitFail1: "r \<noteq> 0 \<Longrightarrow> main_trace InitFail [Ioperm EC_SC 1 1 r]"
| at_InitFail2: "r \<noteq> 0 \<Longrightarrow> main_trace InitFail [Ioperm EC_SC 1 1 0, Ioperm EC_DATA 1 1 r]"
| at_Exited1: "r \<noteq> 0 \<Longrightarrow> main_trace (Exited 1) [Ioperm EC_SC 1 1 r, Perror ''ioperm'']"
| at_Exited2: "r \<noteq> 0 \<Longrightarrow>
    main_trace (Exited 1) [Ioperm EC_SC 1 1 0, Ioperm EC_DATA 1 1 r, Perror ''ioperm'']"
| at_DumpPrint: "main_trace DumpPrint granted_events"
| at_DumpRead: "dump_done i rs \<Longrightarrow> i < length registers \<Longrightarrow>
    rd_progress (registers ! i) r tr \<Longrightarrow>
    main_trace (DumpRead i r) (granted_events @ snapshot_events rs @ tr)"
| at_DumpLine: "dump_done i rs \<Longrightarrow> i < length registers \<Longrightarrow>
    read_transaction (registers ! i) v tr \<Longrightarrow>
    main_trace (DumpLine i v) (granted_events @ snapshot_events rs @ tr)"
| at_DumpLabel: "dump_done i rs \<Longrightarrow> i < length registers \<Longrightarrow> has_label (registers ! i) \<Longrightarrow>
    read_transaction (registers ! i) v tr \<Longrightarrow>
    main_trace (DumpLabel i v)
      (granted_events @ snapshot_events rs @ tr @ [hd (record_events (registers ! i) v)])"
| at_Create: "dump_done (length registers) rs \<Longrightarrow>
    main_trace Create (granted_events @ snapshot_events rs)"
| at_AcpiPrint: "dump_done (length registers) rs \<Longrightarrow>
    main_trace AcpiPrint (granted_events @ snapshot_events rs @ [ThreadCreate])"
| at_AcpiRead: "dump_done (length registers) rs \<Longrightarrow> rd_progress 0x01 r tr \<Longrightarrow>
    main_trace (AcpiRead r)
      (granted_events @ snapshot_events rs @ [ThreadCreate] @
       Stdout (''Checking ACPI flags...'' @ newline) # tr)"
| at_AcpiReport: "dump_done (length registers) rs \<Longrightarrow> read_transaction 0x01 v tr \<Longrightarrow>
    main_trace (AcpiReport v)
      (granted_events @ snapshot_events rs @ [ThreadCreate] @
       Stdout (''Checking ACPI flags...'' @ newline) # tr)"
| at_Join: "dump_done (length registers) rs \<Longrightarrow> read_transaction 0x01 v tr \<Longrightarrow>
    main_trace Join (coordinator_events rs v tr)"

text \<open>The control points of \<^verbatim>\<open>main\<close> before \<^verbatim>\<open>pthread_create\<close> has been called.\<close>

fun before_create :: "main_pc \<Rightarrow> bool" where
  "before_create AcpiPrint = False"
| "before_create (AcpiRead r) = False"
| "before_create (AcpiReport v) = False"
| "before_create Join = False"
| "before_create (Exited code) = (code \<noteq> 0)"
| "before_create pc = True"

text \<open>
  \<^verbatim>\<open>pthread_create\<close> is called at most once: before it the monitor does not exist and
  every event is the main thread's; after it exactly one event is the creation.
\<close>

definition created_once :: "'d config \<Rightarrow> bool" where
  "created_once c \<longleftrightarrow>
     (mon_at c = NotCreated \<longleftrightarrow> before_create (main_at c)) \<and>
     (if before_create (main_at c)
      then \<forall>x \<in> set (tagged c). fst x = Main \<and> snd x \<noteq> ThreadCreate
      else \<exists>pre post. tagged c = pre @ (Main, ThreadCreate) # post \<and>
             (\<forall>x \<in> set pre. fst x = Main \<and> snd x \<noteq> ThreadCreate) \<and>
             (\<forall>x \<in> set post. snd x \<noteq> ThreadCreate))"

text \<open>While \<^verbatim>\<open>ec_init\<close> runs the world is what the calls of \<^verbatim>\<open>ioperm\<close> made of it.\<close>

definition init_state :: "'d sys \<Rightarrow> 'd world \<Rightarrow> 'd config \<Rightarrow> bool" where
  "init_state S w c \<longleftrightarrow>
     (main_at c = InitSc \<longrightarrow> world c = w) \<and>
     (main_at c = InitData \<longrightarrow>
        fst (ioperm S EC_SC 1 1 w) = 0 \<and> world c = snd (ioperm S EC_SC 1 1 w)) \<and>
     (main_at c = InitFail \<longrightarrow> permission_denied S w) \<and>
     (\<forall>code. main_at c = Exited code \<longrightarrow> permission_denied S w) \<and>
     (permission_denied S w \<longrightarrow>
        main_at c = InitSc \<or> main_at c = InitData \<or> main_at c = InitFail \<or>
        main_at c = Exited 1)"

definition history :: "'d sys \<Rightarrow> 'd world \<Rightarrow> 'd config \<Rightarrow> bool" where
  "history S w c \<longleftrightarrow>
     aligned w c \<and> mon_at c \<noteq> MonReturned \<and>
     main_trace (main_at c) (events_of Main c) \<and> created_once c \<and> init_state S w c"

section \<open>A run in which two transactions interleave\<close>

text \<open>
  Register \<open>0x01\<close> of the simulated controller holds \<open>0xAA\<close>, every other register
  \<open>0x11\<close>. The scheduler lets the main thread run alone up to and including
  \<^verbatim>\<open>pthread_create\<close> (77 steps) and then switches between the two threads inside
  their transactions.
\<close>

definition demo_regs :: "u8 \<Rightarrow> u8" where
  "demo_regs a = (if a = 0x01 then 0xAA else 0x11)"

definition demo_sched :: "tid list" where
  "demo_sched = replicate 77 Main @
     [Main, Main, Monitor, Monitor, Main, Monitor, Main, Main,
      Monitor, Monitor, Monitor, Monitor]"

section \<open>The single-threaded part of \<^verbatim>\<open>main\<close> as functions\<close>




section \<open>The waits\<close>

lemma polls_Suc_right: "polls S (Suc n) w = snd (inb S EC_SC (polls S n w))"
  by (induction n arbitrary: w) simp_all

lemma statuses_Suc_right:
  "statuses S (Suc n) w = statuses S n w @ [status S (polls S n w)]"
  by (induction n arbitrary: w) simp_all

lemma length_statuses: "length (statuses S n w) = n"
  by (induction n arbitrary: w) simp_all

lemma nth_statuses: "k < n \<Longrightarrow> statuses S n w ! k = status S (polls S k w)"
proof (induction n arbitrary: w k)
  case 0
  then show ?case by simp
next
  case (Suc n)
  then show ?case by (cases k) simp_all
qed

lemma log_inb: "log (snd (inb S p w)) = log w @ [In p (fst (inb S p w))]"
  by (cases "sys_inb S p (hw w)") (simp add: inb_def)

lemma log_outb: "log (outb S v p w) = log w @ [Out v p]"
  by (simp add: outb_def)

lemma log_polls: "log (polls S n w) = log w @ map (In EC_SC) (statuses S n w)"
  by (induction n arbitrary: w) (simp_all add: log_inb status_def)

lemma first_index:
  fixes P :: "nat \<Rightarrow> bool"
  assumes "\<exists>n. P n"
  obtains n where "P n" and "\<And>k. k < n \<Longrightarrow> \<not> P k"
  using assms by (metis exists_least_iff)

subsection \<open>Waiting for IBF to clear\<close>

lemma ec_wait_ibf_busy:
  "status S w AND 0x02 \<noteq> 0 \<Longrightarrow> ec_wait_ibf S w = ec_wait_ibf S (snd (inb S EC_SC w))"
  by (cases "inb S EC_SC w") (simp add: ec_wait_ibf.simps [of S w] status_def)

lemma ec_wait_ibf_ready:
  "status S w AND 0x02 = 0 \<Longrightarrow> ec_wait_ibf S w = Some (snd (inb S EC_SC w))"
  by (cases "inb S EC_SC w") (simp add: ec_wait_ibf.simps [of S w] status_def)

lemma ec_wait_ibf_skip:
  "(\<And>k. k < n \<Longrightarrow> status S (polls S k w) AND 0x02 \<noteq> 0) \<Longrightarrow>
   ec_wait_ibf S w = ec_wait_ibf S (polls S n w)"
proof (induction n arbitrary: w)
  case 0
  show ?case by simp
next
  case (Suc n)
  have b0: "status S w AND 0x02 \<noteq> 0"
    using Suc.prems [of 0] by simp
  have "ec_wait_ibf S (snd (inb S EC_SC w)) = ec_wait_ibf S (polls S n (snd (inb S EC_SC w)))"
  proof (rule Suc.IH)
    fix k assume "k < n"
    then show "status S (polls S k (snd (inb S EC_SC w))) AND 0x02 \<noteq> 0"
      using Suc.prems [of "Suc k"] by simp
  qed
  with b0 show ?case
    by (simp add: ec_wait_ibf_busy)
qed

lemma ec_wait_ibf_Some_ex:
  assumes ret: "ec_wait_ibf S w = Some w'"
  shows "\<exists>n. status S (polls S n w) AND 0x02 = 0"
proof (rule ec_wait_ibf.raw_induct
    [where P = "\<lambda>S w w'. \<exists>n. status S (polls S n w) AND 0x02 = 0", OF _ ret])
  fix f and S :: "'a sys" and w w' :: "'a world"
  assume IH: "\<And>S w w'. f S w = Some w' \<Longrightarrow> \<exists>n. status S (polls S n w) AND 0x02 = 0"
    and eq: "(case inb S EC_SC w of
               (v, w') \<Rightarrow> if v AND 0x02 \<noteq> 0 then f S w' else Some w') = Some w'"
  obtain v w1 where i: "inb S EC_SC w = (v, w1)"
    by (cases "inb S EC_SC w")
  show "\<exists>n. status S (polls S n w) AND 0x02 = 0"
  proof (cases "v AND 0x02 = 0")
    case True
    with i have "status S (polls S 0 w) AND 0x02 = 0"
      by (simp add: status_def)
    then show ?thesis by blast
  next
    case False
    with eq i have "f S w1 = Some w'" by simp
    then obtain n where "status S (polls S n w1) AND 0x02 = 0"
      using IH by blast
    with i have "status S (polls S (Suc n) w) AND 0x02 = 0" by simp
    then show ?thesis by blast
  qed
qed

lemma ec_wait_ibf_first:
  assumes "status S (polls S n w) AND 0x02 = 0"
    and "\<And>k. k < n \<Longrightarrow> status S (polls S k w) AND 0x02 \<noteq> 0"
  shows "ec_wait_ibf S w = Some (polls S (Suc n) w)"
proof -
  have "ec_wait_ibf S w = Some (snd (inb S EC_SC (polls S n w)))"
    using ec_wait_ibf_skip [of n S w, OF assms(2)] ec_wait_ibf_ready [OF assms(1)] by simp
  then show ?thesis
    by (simp only: polls_Suc_right)
qed

lemma ec_wait_ibf_cases:
  obtains (hang) "ec_wait_ibf S w = None" "\<And>n. status S (polls S n w) AND 0x02 \<noteq> 0"
  | (ret) n where "ec_wait_ibf S w = Some (polls S (Suc n) w)"
      "status S (polls S n w) AND 0x02 = 0"
      "\<And>k. k < n \<Longrightarrow> status S (polls S k w) AND 0x02 \<noteq> 0"
proof (cases "\<exists>n. status S (polls S n w) AND 0x02 = 0")
  case True
  then obtain n where n: "status S (polls S n w) AND 0x02 = 0"
    and least: "\<And>k. k < n \<Longrightarrow> status S (polls S k w) AND 0x02 \<noteq> 0"
    by (rule first_index [where P = "\<lambda>n. status S (polls S n w) AND 0x02 = 0"]) blast
  have "ec_wait_ibf S w = Some (polls S (Suc n) w)"
    using n least by (rule ec_wait_ibf_first)
  then show thesis
    using n least by (rule ret)
next
  case False
  then have "ec_wait_ibf S w = None"
    using ec_wait_ibf_Some_ex [of S w] by (cases "ec_wait_ibf S w") auto
  then show thesis
    using False by (intro hang) auto
qed

lemma ibf_gate_statuses:
  assumes "status S (polls S n w) AND 0x02 = 0"
    and "\<And>k. k < n \<Longrightarrow> status S (polls S k w) AND 0x02 \<noteq> 0"
  shows "ibf_gate (statuses S (Suc n) w)"
proof -
  have "list_all (\<lambda>x. x AND 0x02 \<noteq> 0) (statuses S n w)"
    unfolding list_all_length using assms(2) by (simp add: length_statuses nth_statuses)
  then show ?thesis
    unfolding ibf_gate_def statuses_Suc_right using assms(1) by simp
qed

lemma ec_wait_ibf_log:
  assumes "ec_wait_ibf S w = Some w'"
  obtains s where "ibf_gate s" and "log w' = log w @ map (In EC_SC) s"
proof (cases rule: ec_wait_ibf_cases [of S w])
  case hang
  with assms show thesis by simp
next
  case (ret n)
  from ret(1) assms have "w' = polls S (Suc n) w" by simp
  then have "log w' = log w @ map (In EC_SC) (statuses S (Suc n) w)"
    by (simp only: log_polls)
  moreover have "ibf_gate (statuses S (Suc n) w)"
    using ret(2,3) by (rule ibf_gate_statuses)
  ultimately show thesis
    using that by blast
qed
subsection \<open>Waiting for OBF to be set\<close>

lemma ec_wait_obf_busy:
  "status S w AND 0x01 = 0 \<Longrightarrow> ec_wait_obf S w = ec_wait_obf S (snd (inb S EC_SC w))"
  by (cases "inb S EC_SC w") (simp add: ec_wait_obf.simps [of S w] status_def)

lemma ec_wait_obf_ready:
  "status S w AND 0x01 \<noteq> 0 \<Longrightarrow> ec_wait_obf S w = Some (snd (inb S EC_SC w))"
  by (cases "inb S EC_SC w") (simp add: ec_wait_obf.simps [of S w] status_def)

lemma ec_wait_obf_skip:
  "(\<And>k. k < n \<Longrightarrow> status S (polls S k w) AND 0x01 = 0) \<Longrightarrow>
   ec_wait_obf S w = ec_wait_obf S (polls S n w)"
proof (induction n arbitrary: w)
  case 0
  show ?case by simp
next
  case (Suc n)
  have b0: "status S w AND 0x01 = 0"
    using Suc.prems [of 0] by simp
  have "ec_wait_obf S (snd (inb S EC_SC w)) = ec_wait_obf S (polls S n (snd (inb S EC_SC w)))"
  proof (rule Suc.IH)
    fix k assume "k < n"
    then show "status S (polls S k (snd (inb S EC_SC w))) AND 0x01 = 0"
      using Suc.prems [of "Suc k"] by simp
  qed
  with b0 show ?case
    by (simp add: ec_wait_obf_busy)
qed

lemma ec_wait_obf_Some_ex:
  assumes ret: "ec_wait_obf S w = Some w'"
  shows "\<exists>n. status S (polls S n w) AND 0x01 \<noteq> 0"
proof (rule ec_wait_obf.raw_induct
    [where P = "\<lambda>S w w'. \<exists>n. status S (polls S n w) AND 0x01 \<noteq> 0", OF _ ret])
  fix f and S :: "'a sys" and w w' :: "'a world"
  assume IH: "\<And>S w w'. f S w = Some w' \<Longrightarrow> \<exists>n. status S (polls S n w) AND 0x01 \<noteq> 0"
    and eq: "(case inb S EC_SC w of
               (v, w') \<Rightarrow> if \<not> (v AND 0x01 \<noteq> 0) then f S w' else Some w') = Some w'"
  obtain v w1 where i: "inb S EC_SC w = (v, w1)"
    by (cases "inb S EC_SC w")
  show "\<exists>n. status S (polls S n w) AND 0x01 \<noteq> 0"
  proof (cases "v AND 0x01 \<noteq> 0")
    case True
    with i have "status S (polls S 0 w) AND 0x01 \<noteq> 0"
      by (simp add: status_def)
    then show ?thesis by blast
  next
    case False
    with eq i have "f S w1 = Some w'" by simp
    then obtain n where "status S (polls S n w1) AND 0x01 \<noteq> 0"
      using IH by blast
    with i have "status S (polls S (Suc n) w) AND 0x01 \<noteq> 0" by simp
    then show ?thesis by blast
  qed
qed

lemma ec_wait_obf_first:
  assumes "status S (polls S n w) AND 0x01 \<noteq> 0"
    and "\<And>k. k < n \<Longrightarrow> status S (polls S k w) AND 0x01 = 0"
  shows "ec_wait_obf S w = Some (polls S (Suc n) w)"
proof -
  have "ec_wait_obf S w = Some (snd (inb S EC_SC (polls S n w)))"
    using ec_wait_obf_skip [of n S w, OF assms(2)] ec_wait_obf_ready [OF assms(1)] by simp
  then show ?thesis
    by (simp only: polls_Suc_right)
qed

lemma ec_wait_obf_cases:
  obtains (hang) "ec_wait_obf S w = None" "\<And>n. status S (polls S n w) AND 0x01 = 0"
  | (ret) n where "ec_wait_obf S w = Some (polls S (Suc n) w)"
      "status S (polls S n w) AND 0x01 \<noteq> 0"
      "\<And>k. k < n \<Longrightarrow> status S (polls S k w) AND 0x01 = 0"
proof (cases "\<exists>n. status S (polls S n w) AND 0x01 \<noteq> 0")
  case True
  then obtain n where n: "status S (polls S n w) AND 0x01 \<noteq> 0"
    and least: "\<And>k. k < n \<Longrightarrow> status S (polls S k w) AND 0x01 = 0"
    by (rule first_index [where P = "\<lambda>n. status S (polls S n w) AND 0x01 \<noteq> 0"]) blast
  have "ec_wait_obf S w = Some (polls S (Suc n) w)"
    using n least by (rule ec_wait_obf_first)
  then show thesis
    using n least by (rule ret)
next
  case False
  then have "ec_wait_obf S w = None"
    using ec_wait_obf_Some_ex [of S w] by (cases "ec_wait_obf S w") auto
  then show thesis
    using False by (intro hang) auto
qed

lemma obf_gate_statuses:
  assumes "status S (polls S n w) AND 0x01 \<noteq> 0"
    and "\<And>k. k < n \<Longrightarrow> status S (polls S k w) AND 0x01 = 0"
  shows "obf_gate (statuses S (Suc n) w)"
proof -
  have "list_all (\<lambda>x. x AND 0x01 = 0) (statuses S n w)"
    unfolding list_all_length using assms(2) by (simp add: length_statuses nth_statuses)
  then show ?thesis
    unfolding obf_gate_def statuses_Suc_right using assms(1) by simp
qed

lemma ec_wait_obf_log:
  assumes "ec_wait_obf S w = Some w'"
  obtains s where "obf_gate s" and "log w' = log w @ map (In EC_SC) s"
proof (cases rule: ec_wait_obf_cases [of S w])
  case hang
  with assms show thesis by simp
next
  case (ret n)
  from ret(1) assms have "w' = polls S (Suc n) w" by simp
  then have "log w' = log w @ map (In EC_SC) (statuses S (Suc n) w)"
    by (simp only: log_polls)
  moreover have "obf_gate (statuses S (Suc n) w)"
    using ret(2,3) by (rule obf_gate_statuses)
  ultimately show thesis
    using that by blast
qed

text \<open>
  C5. The waits poll the status port with no timeout. \<^verbatim>\<open>ec_wait_ibf\<close> returns exactly
  at the first read of the status port whose bit 1 is 0, \<^verbatim>\<open>ec_wait_obf\<close> exactly at
  the first read whose bit 0 is 1, after any number \<open>n\<close> of reads that did not show
  it; and a wait never returns exactly when no read ever shows the awaited bit.
\<close>

theorem ec_wait_no_timeout:
  "(ec_wait_ibf S w = None \<longleftrightarrow> (\<forall>n. status S (polls S n w) AND 0x02 \<noteq> 0)) \<and>
   (ec_wait_ibf S w = Some w' \<longleftrightarrow>
      (\<exists>n. (\<forall>k<n. status S (polls S k w) AND 0x02 \<noteq> 0) \<and>
           status S (polls S n w) AND 0x02 = 0 \<and> w' = polls S (Suc n) w)) \<and>
   (ec_wait_obf S w = None \<longleftrightarrow> (\<forall>n. status S (polls S n w) AND 0x01 = 0)) \<and>
   (ec_wait_obf S w = Some w' \<longleftrightarrow>
      (\<exists>n. (\<forall>k<n. status S (polls S k w) AND 0x01 = 0) \<and>
           status S (polls S n w) AND 0x01 \<noteq> 0 \<and> w' = polls S (Suc n) w))"
proof -
  have ibf: "(ec_wait_ibf S w = None \<longleftrightarrow> (\<forall>n. status S (polls S n w) AND 0x02 \<noteq> 0)) \<and>
   (ec_wait_ibf S w = Some w' \<longleftrightarrow>
      (\<exists>n. (\<forall>k<n. status S (polls S k w) AND 0x02 \<noteq> 0) \<and>
           status S (polls S n w) AND 0x02 = 0 \<and> w' = polls S (Suc n) w))"
  proof (cases rule: ec_wait_ibf_cases [of S w])
    case hang
    then show ?thesis by auto
  next
    case (ret n)
    have "m = n" if "\<forall>k<m. status S (polls S k w) AND 0x02 \<noteq> 0"
      and "status S (polls S m w) AND 0x02 = 0" for m
      using that ret(2,3) by (metis linorder_neqE_nat)
    then show ?thesis
      using ret by auto
  qed
  have obf: "(ec_wait_obf S w = None \<longleftrightarrow> (\<forall>n. status S (polls S n w) AND 0x01 = 0)) \<and>
   (ec_wait_obf S w = Some w' \<longleftrightarrow>
      (\<exists>n. (\<forall>k<n. status S (polls S k w) AND 0x01 = 0) \<and>
           status S (polls S n w) AND 0x01 \<noteq> 0 \<and> w' = polls S (Suc n) w))"
  proof (cases rule: ec_wait_obf_cases [of S w])
    case hang
    then show ?thesis by auto
  next
    case (ret n)
    have "m = n" if "\<forall>k<m. status S (polls S k w) AND 0x01 = 0"
      and "status S (polls S m w) AND 0x01 \<noteq> 0" for m
      using that ret(2,3) by (metis linorder_neqE_nat)
    then show ?thesis
      using ret by auto
  qed
  from ibf obf show ?thesis by blast
qed

lemma sim_idle_polls:
  "busy (hw w) = 0 \<Longrightarrow> obuf (hw w) = None \<Longrightarrow> hw (polls sim_ec n w) = hw w"
  by (induction n arbitrary: w) (simp_all add: inb_def sim_ec_def sim_inb_def)

text \<open>
  On the simulated controller: with IBF reported three times the wait returns after
  the fourth read, and with an output buffer that stays empty the wait for OBF hangs.
\<close>

theorem ec_wait_no_timeout_witness:
  "ec_wait_ibf sim_ec (sim_init (\<lambda>a. 0) 3 True) = Some (polls sim_ec 4 (sim_init (\<lambda>a. 0) 3 True)) \<and>
   map (\<lambda>k. status sim_ec (polls sim_ec k (sim_init (\<lambda>a. 0) 3 True))) [0, 1, 2, 3] = [2, 2, 2, 0] \<and>
   ec_wait_obf sim_ec (sim_init (\<lambda>a. 0) 0 True) = None"
proof -
  let ?w = "sim_init (\<lambda>a. 0) 3 True"
  let ?i = "sim_init (\<lambda>a. 0) 0 True"
  have st: "map (\<lambda>k. status sim_ec (polls sim_ec k ?w)) [0, 1, 2, 3] = [2, 2, 2, 0]"
    by (simp add: eval_nat_numeral status_def inb_def sim_ec_def sim_inb_def sim_init_def)
  have "\<forall>k<3. status sim_ec (polls sim_ec k ?w) AND 0x02 \<noteq> 0"
  proof (intro allI impI)
    fix k :: nat assume "k < 3"
    then have "k = 0 \<or> k = 1 \<or> k = 2" by arith
    with st show "status sim_ec (polls sim_ec k ?w) AND 0x02 \<noteq> 0" by auto
  qed
  moreover have "status sim_ec (polls sim_ec 3 ?w) AND 0x02 = 0"
    using st by simp
  moreover have "polls sim_ec 4 ?w = polls sim_ec (Suc 3) ?w"
  proof -
    have "(4::nat) = Suc 3" by arith
    then show ?thesis by (rule arg_cong [where f = "\<lambda>n. polls sim_ec n ?w"])
  qed
  ultimately have a: "ec_wait_ibf sim_ec ?w = Some (polls sim_ec 4 ?w)"
    using ec_wait_no_timeout [of sim_ec ?w "polls sim_ec 4 ?w"] by blast
  have "status sim_ec (polls sim_ec n ?i) AND 0x01 = 0" for n
  proof -
    have "hw (polls sim_ec n ?i) = hw ?i"
      by (rule sim_idle_polls) (simp_all add: sim_init_def)
    then show ?thesis
      by (simp add: status_def inb_def sim_ec_def sim_inb_def sim_init_def)
  qed
  then have b: "ec_wait_obf sim_ec ?i = None"
    using ec_wait_no_timeout [of sim_ec ?i] by blast
  from a st b show ?thesis by blast
qed

section \<open>The two transactions\<close>

lemma ec_read_log:
  assumes "ec_read S addr w = Some (v, w')"
  shows "\<exists>s1 s2 s3. ibf_gate s1 \<and> ibf_gate s2 \<and> obf_gate s3 \<and>
           log w' = log w @
             map (In EC_SC) s1 @ [Out 0x80 EC_SC] @
             map (In EC_SC) s2 @ [Out addr EC_DATA] @
             map (In EC_SC) s3 @ [In EC_DATA v]"
proof -
  from assms obtain w1 w2 w3 where
    a: "ec_wait_ibf S w = Some w1" and
    b: "ec_wait_ibf S (outb S 0x80 EC_SC w1) = Some w2" and
    c: "ec_wait_obf S (outb S addr EC_DATA w2) = Some w3" and
    d: "inb S EC_DATA w3 = (v, w')"
    by (auto simp: ec_read_def split: option.splits)
  from a obtain s1 where s1: "ibf_gate s1" "log w1 = log w @ map (In EC_SC) s1"
    by (rule ec_wait_ibf_log)
  from b obtain s2 where s2: "ibf_gate s2"
    "log w2 = log (outb S 0x80 EC_SC w1) @ map (In EC_SC) s2"
    by (rule ec_wait_ibf_log)
  from c obtain s3 where s3: "obf_gate s3"
    "log w3 = log (outb S addr EC_DATA w2) @ map (In EC_SC) s3"
    by (rule ec_wait_obf_log)
  have "log w' = log w3 @ [In EC_DATA v]"
    using log_inb [of S EC_DATA w3] d by simp
  with s1(2) s2(2) s3(2) have "log w' = log w @
      map (In EC_SC) s1 @ [Out 0x80 EC_SC] @
      map (In EC_SC) s2 @ [Out addr EC_DATA] @
      map (In EC_SC) s3 @ [In EC_DATA v]"
    by (simp add: log_outb)
  with s1(1) s2(1) s3(1) show ?thesis by blast
qed


section \<open>The steps of a transaction and the function \<^verbatim>\<open>ec_read\<close>\<close>

text \<open>
  The machine that makes one port access per step and the function that runs the
  whole transaction are the same program: a thread left alone reaches the end of the
  transaction after some number of steps exactly when the function returns, with the
  same byte and the same world; and it steps for ever exactly when the function hangs.
\<close>

lemma ec_read_from_step:
  "ec_read_from S a pc w =
     (case ec_read_step S a pc w of
        (Inl pc', w') \<Rightarrow> ec_read_from S a pc' w'
      | (Inr v, w') \<Rightarrow> Some (v, w'))"
proof (cases pc)
  case RdWaitIbf1
  then show ?thesis
    by (cases "inb S EC_SC w")
      (simp add: ec_read_from_def ec_read_step_def ec_read_def ec_wait_ibf.simps [of S w])
next
  case RdCmd
  then show ?thesis
    by (simp add: ec_read_from_def ec_read_step_def)
next
  case RdWaitIbf2
  then show ?thesis
    by (cases "inb S EC_SC w")
      (simp add: ec_read_from_def ec_read_step_def ec_wait_ibf.simps [of S w])
next
  case RdAddr
  then show ?thesis
    by (simp add: ec_read_from_def ec_read_step_def)
next
  case RdWaitObf
  then show ?thesis
    by (cases "inb S EC_SC w")
      (simp add: ec_read_from_def ec_read_step_def ec_wait_obf.simps [of S w])
next
  case RdData
  then show ?thesis
    by (cases "inb S EC_DATA w") (simp add: ec_read_from_def ec_read_step_def)
qed

lemma ec_read_steps_sound:
  "ec_read_steps S a n (Inl pc, w) = (Inr v, w') \<Longrightarrow> ec_read_from S a pc w = Some (v, w')"
proof (induction n arbitrary: pc w)
  case 0
  then show ?case by simp
next
  case (Suc n)
  obtain x w1 where s: "ec_read_step S a pc w = (x, w1)"
    by (cases "ec_read_step S a pc w")
  show ?case
  proof (cases x)
    case (Inl pc')
    with Suc.prems s have "ec_read_steps S a n (Inl pc', w1) = (Inr v, w')" by simp
    then have "ec_read_from S a pc' w1 = Some (v, w')" by (rule Suc.IH)
    with s Inl show ?thesis
      by (simp add: ec_read_from_step [of S a pc w])
  next
    case (Inr u)
    with Suc.prems s have "u = v" "w1 = w'"
      by (cases n; simp)+
    with s Inr show ?thesis
      by (simp add: ec_read_from_step [of S a pc w])
  qed
qed

lemma ec_read_steps_add:
  "ec_read_steps S a (m + n) x = ec_read_steps S a n (ec_read_steps S a m x)"
proof (induction m arbitrary: x)
  case 0
  show ?case by simp
next
  case (Suc m)
  obtain y w where x: "x = (y, w)" by (cases x)
  show ?case
  proof (cases y)
    case (Inl pc)
    with x Suc.IH show ?thesis by simp
  next
    case (Inr v)
    with x show ?thesis by (cases n) simp_all
  qed
qed

lemma wait_ibf1_steps:
  assumes "status S (polls S n w) AND 0x02 = 0"
    and "\<And>k. k < n \<Longrightarrow> status S (polls S k w) AND 0x02 \<noteq> 0"
  shows "ec_read_steps S a (Suc n) (Inl RdWaitIbf1, w) = (Inl RdCmd, polls S (Suc n) w)"
  using assms
proof (induction n arbitrary: w)
  case 0
  then show ?case
    by (cases "inb S EC_SC w") (simp add: ec_read_step_def status_def)
next
  case (Suc n)
  let ?w1 = "snd (inb S EC_SC w)"
  from Suc.prems(2) [of 0] have b: "status S w AND 0x02 \<noteq> 0" by simp
  have "ec_read_steps S a (Suc n) (Inl RdWaitIbf1, ?w1) = (Inl RdCmd, polls S (Suc n) ?w1)"
  proof (rule Suc.IH)
    show "status S (polls S n ?w1) AND 0x02 = 0"
      using Suc.prems(1) by simp
    show "status S (polls S k ?w1) AND 0x02 \<noteq> 0" if "k < n" for k
      using Suc.prems(2) [of "Suc k"] that by simp
  qed
  with b show ?case
    by (cases "inb S EC_SC w") (simp add: ec_read_step_def status_def)
qed

lemma wait_ibf2_steps:
  assumes "status S (polls S n w) AND 0x02 = 0"
    and "\<And>k. k < n \<Longrightarrow> status S (polls S k w) AND 0x02 \<noteq> 0"
  shows "ec_read_steps S a (Suc n) (Inl RdWaitIbf2, w) = (Inl RdAddr, polls S (Suc n) w)"
  using assms
proof (induction n arbitrary: w)
  case 0
  then show ?case
    by (cases "inb S EC_SC w") (simp add: ec_read_step_def status_def)
next
  case (Suc n)
  let ?w1 = "snd (inb S EC_SC w)"
  from Suc.prems(2) [of 0] have b: "status S w AND 0x02 \<noteq> 0" by simp
  have "ec_read_steps S a (Suc n) (Inl RdWaitIbf2, ?w1) = (Inl RdAddr, polls S (Suc n) ?w1)"
  proof (rule Suc.IH)
    show "status S (polls S n ?w1) AND 0x02 = 0"
      using Suc.prems(1) by simp
    show "status S (polls S k ?w1) AND 0x02 \<noteq> 0" if "k < n" for k
      using Suc.prems(2) [of "Suc k"] that by simp
  qed
  with b show ?case
    by (cases "inb S EC_SC w") (simp add: ec_read_step_def status_def)
qed

lemma wait_obf_steps:
  assumes "status S (polls S n w) AND 0x01 \<noteq> 0"
    and "\<And>k. k < n \<Longrightarrow> status S (polls S k w) AND 0x01 = 0"
  shows "ec_read_steps S a (Suc n) (Inl RdWaitObf, w) = (Inl RdData, polls S (Suc n) w)"
  using assms
proof (induction n arbitrary: w)
  case 0
  then show ?case
    by (cases "inb S EC_SC w") (simp add: ec_read_step_def status_def)
next
  case (Suc n)
  let ?w1 = "snd (inb S EC_SC w)"
  from Suc.prems(2) [of 0] have b: "status S w AND 0x01 = 0" by simp
  have "ec_read_steps S a (Suc n) (Inl RdWaitObf, ?w1) = (Inl RdData, polls S (Suc n) ?w1)"
  proof (rule Suc.IH)
    show "status S (polls S n ?w1) AND 0x01 \<noteq> 0"
      using Suc.prems(1) by simp
    show "status S (polls S k ?w1) AND 0x01 = 0" if "k < n" for k
      using Suc.prems(2) [of "Suc k"] that by simp
  qed
  with b show ?case
    by (cases "inb S EC_SC w") (simp add: ec_read_step_def status_def)
qed

lemma wait_ibf1_link:
  assumes "ec_wait_ibf S w = Some w1"
  shows "\<exists>n. ec_read_steps S a n (Inl RdWaitIbf1, w) = (Inl RdCmd, w1)"
proof (cases rule: ec_wait_ibf_cases [of S w])
  case hang
  with assms show ?thesis by simp
next
  case (ret n)
  have "ec_read_steps S a (Suc n) (Inl RdWaitIbf1, w) = (Inl RdCmd, polls S (Suc n) w)"
    using ret(2,3) by (rule wait_ibf1_steps)
  moreover from ret(1) assms have "polls S (Suc n) w = w1"
    by (metis option.inject)
  ultimately show ?thesis by metis
qed

lemma wait_ibf2_link:
  assumes "ec_wait_ibf S w = Some w1"
  shows "\<exists>n. ec_read_steps S a n (Inl RdWaitIbf2, w) = (Inl RdAddr, w1)"
proof (cases rule: ec_wait_ibf_cases [of S w])
  case hang
  with assms show ?thesis by simp
next
  case (ret n)
  have "ec_read_steps S a (Suc n) (Inl RdWaitIbf2, w) = (Inl RdAddr, polls S (Suc n) w)"
    using ret(2,3) by (rule wait_ibf2_steps)
  moreover from ret(1) assms have "polls S (Suc n) w = w1"
    by (metis option.inject)
  ultimately show ?thesis by metis
qed

lemma wait_obf_link:
  assumes "ec_wait_obf S w = Some w1"
  shows "\<exists>n. ec_read_steps S a n (Inl RdWaitObf, w) = (Inl RdData, w1)"
proof (cases rule: ec_wait_obf_cases [of S w])
  case hang
  with assms show ?thesis by simp
next
  case (ret n)
  have "ec_read_steps S a (Suc n) (Inl RdWaitObf, w) = (Inl RdData, polls S (Suc n) w)"
    using ret(2,3) by (rule wait_obf_steps)
  moreover from ret(1) assms have "polls S (Suc n) w = w1"
    by (metis option.inject)
  ultimately show ?thesis by metis
qed

lemma ec_read_steps_complete:
  assumes "ec_read S a w = Some (v, w')"
  shows "\<exists>n. ec_read_steps S a n (Inl RdWaitIbf1, w) = (Inr v, w')"
proof -
  from assms obtain w1 w2 w3 where
    a: "ec_wait_ibf S w = Some w1" and
    b: "ec_wait_ibf S (outb S 0x80 EC_SC w1) = Some w2" and
    c: "ec_wait_obf S (outb S a EC_DATA w2) = Some w3" and
    d: "inb S EC_DATA w3 = (v, w')"
    by (auto simp: ec_read_def split: option.splits)
  from wait_ibf1_link [OF a, of a] obtain n1 where
    1: "ec_read_steps S a n1 (Inl RdWaitIbf1, w) = (Inl RdCmd, w1)" by blast
  from wait_ibf2_link [OF b, of a] obtain n2 where
    2: "ec_read_steps S a n2 (Inl RdWaitIbf2, outb S 0x80 EC_SC w1) = (Inl RdAddr, w2)" by blast
  from wait_obf_link [OF c, of a] obtain n3 where
    3: "ec_read_steps S a n3 (Inl RdWaitObf, outb S a EC_DATA w2) = (Inl RdData, w3)" by blast
  have s1: "ec_read_steps S a (Suc 0) (Inl RdCmd, w1) = (Inl RdWaitIbf2, outb S 0x80 EC_SC w1)"
    by (simp add: ec_read_step_def)
  have s2: "ec_read_steps S a (Suc 0) (Inl RdAddr, w2) = (Inl RdWaitObf, outb S a EC_DATA w2)"
    by (simp add: ec_read_step_def)
  have s3: "ec_read_steps S a (Suc 0) (Inl RdData, w3) = (Inr v, w')"
    using d by (simp add: ec_read_step_def)
  have "ec_read_steps S a (n1 + (Suc 0 + (n2 + (Suc 0 + (n3 + Suc 0)))))
      (Inl RdWaitIbf1, w) = (Inr v, w')"
    by (simp only: ec_read_steps_add 1 2 3 s1 s2 s3)
  then show ?thesis by blast
qed

lemma ec_read_steps_iff:
  "ec_read S a w = Some (v, w') \<longleftrightarrow>
     (\<exists>n. ec_read_steps S a n (Inl RdWaitIbf1, w) = (Inr v, w'))"
proof
  assume "ec_read S a w = Some (v, w')"
  then show "\<exists>n. ec_read_steps S a n (Inl RdWaitIbf1, w) = (Inr v, w')"
    by (rule ec_read_steps_complete)
next
  assume "\<exists>n. ec_read_steps S a n (Inl RdWaitIbf1, w) = (Inr v, w')"
  then obtain n where "ec_read_steps S a n (Inl RdWaitIbf1, w) = (Inr v, w')" by blast
  then have "ec_read_from S a RdWaitIbf1 w = Some (v, w')"
    by (rule ec_read_steps_sound)
  then show "ec_read S a w = Some (v, w')"
    by (simp add: ec_read_from_def)
qed

lemma ec_read_hangs_iff:
  "ec_read S a w = None \<longleftrightarrow>
     (\<forall>n. \<exists>pc w'. ec_read_steps S a n (Inl RdWaitIbf1, w) = (Inl pc, w'))"
proof
  assume h: "ec_read S a w = None"
  show "\<forall>n. \<exists>pc w'. ec_read_steps S a n (Inl RdWaitIbf1, w) = (Inl pc, w')"
  proof
    fix n
    obtain x w' where s: "ec_read_steps S a n (Inl RdWaitIbf1, w) = (x, w')"
      by (cases "ec_read_steps S a n (Inl RdWaitIbf1, w)")
    show "\<exists>pc w'. ec_read_steps S a n (Inl RdWaitIbf1, w) = (Inl pc, w')"
    proof (cases x)
      case (Inl pc)
      with s show ?thesis by blast
    next
      case (Inr v)
      with s have "ec_read S a w = Some (v, w')"
        using ec_read_steps_iff by blast
      with h show ?thesis by simp
    qed
  qed
next
  assume f: "\<forall>n. \<exists>pc w'. ec_read_steps S a n (Inl RdWaitIbf1, w) = (Inl pc, w')"
  show "ec_read S a w = None"
  proof (cases "ec_read S a w")
    case None
    then show ?thesis .
  next
    case (Some r)
    obtain v w' where "r = (v, w')" by (cases r)
    with Some obtain n where "ec_read_steps S a n (Inl RdWaitIbf1, w) = (Inr v, w')"
      using ec_read_steps_complete by blast
    with f show ?thesis by (metis Inl_Inr_False prod.inject)
  qed
qed

section \<open>The accesses of a transaction in progress\<close>

lemma busy_ibf_snoc: "busy_ibf (s @ [v]) \<longleftrightarrow> busy_ibf s \<and> v AND 0x02 \<noteq> 0"
  by (simp add: busy_ibf_def)

lemma busy_obf_snoc: "busy_obf (s @ [v]) \<longleftrightarrow> busy_obf s \<and> v AND 0x01 = 0"
  by (simp add: busy_obf_def)

lemma ibf_gate_snoc: "ibf_gate (s @ [v]) \<longleftrightarrow> busy_ibf s \<and> v AND 0x02 = 0"
  by (simp add: ibf_gate_def busy_ibf_def)

lemma obf_gate_snoc: "obf_gate (s @ [v]) \<longleftrightarrow> busy_obf s \<and> v AND 0x01 \<noteq> 0"
  by (simp add: obf_gate_def busy_obf_def)

lemma inb_event: "inb S p w = (v, w') \<Longrightarrow> log w' = log w @ [In p v]"
  by (auto simp: inb_def split: prod.splits)

lemma rd_progress_start: "rd_progress a RdWaitIbf1 []"
  using at_wait_ibf1 [of "[]" a] by (simp add: busy_ibf_def)

lemma wait_ibf1_snoc:
  assumes "busy_ibf s"
  shows "rd_progress a (if v AND 0x02 \<noteq> 0 then RdWaitIbf1 else RdCmd)
           (map (In EC_SC) s @ [In EC_SC v])"
proof (cases "v AND 0x02 \<noteq> 0")
  case True
  with assms have "busy_ibf (s @ [v])" by (simp add: busy_ibf_snoc)
  from at_wait_ibf1 [OF this, of a] True show ?thesis by simp
next
  case False
  with assms have "ibf_gate (s @ [v])" by (simp add: ibf_gate_snoc)
  from at_cmd [OF this, of a] False show ?thesis by simp
qed

lemma wait_ibf2_snoc:
  assumes "ibf_gate s1" and "busy_ibf s"
  shows "rd_progress a (if v AND 0x02 \<noteq> 0 then RdWaitIbf2 else RdAddr)
           (map (In EC_SC) s1 @ Out 0x80 EC_SC # map (In EC_SC) s @ [In EC_SC v])"
proof (cases "v AND 0x02 \<noteq> 0")
  case True
  with assms have "busy_ibf (s @ [v])" by (simp add: busy_ibf_snoc)
  from at_wait_ibf2 [OF assms(1) this, of a] True show ?thesis by simp
next
  case False
  with assms have "ibf_gate (s @ [v])" by (simp add: ibf_gate_snoc)
  from at_addr [OF assms(1) this, of a] False show ?thesis by simp
qed

lemma wait_obf_snoc:
  assumes "ibf_gate s1" and "ibf_gate s2" and "busy_obf s"
  shows "rd_progress a (if \<not> (v AND 0x01 \<noteq> 0) then RdWaitObf else RdData)
           (map (In EC_SC) s1 @ Out 0x80 EC_SC # map (In EC_SC) s2 @ Out a EC_DATA #
            map (In EC_SC) s @ [In EC_SC v])"
proof (cases "v AND 0x01 \<noteq> 0")
  case False
  with assms have "busy_obf (s @ [v])" by (simp add: busy_obf_snoc)
  from at_wait_obf [OF assms(1,2) this, of a] False show ?thesis by simp
next
  case True
  with assms have "obf_gate (s @ [v])" by (simp add: obf_gate_snoc)
  from at_data [OF assms(1,2) this, of a] True show ?thesis by simp
qed

lemma rd_progress_step:
  assumes "rd_progress a pc tr" and "ec_read_step S a pc w = (x, w')"
  shows "\<exists>e. log w' = log w @ [e] \<and>
           (case x of Inl pc' \<Rightarrow> rd_progress a pc' (tr @ [e])
                    | Inr v \<Rightarrow> read_transaction a v (tr @ [e]))"
  using assms(1)
proof cases
  case (at_wait_ibf1 s)
  obtain v w1 where i: "inb S EC_SC w = (v, w1)" by (cases "inb S EC_SC w")
  with assms(2) at_wait_ibf1 have x: "x = Inl (if v AND 0x02 \<noteq> 0 then RdWaitIbf1 else RdCmd)"
    and w': "w' = w1" by (simp_all add: ec_read_step_def)
  have l: "log w' = log w @ [In EC_SC v]"
    using i w' by (simp add: inb_event)
  have "rd_progress a (if v AND 0x02 \<noteq> 0 then RdWaitIbf1 else RdCmd) (tr @ [In EC_SC v])"
    using wait_ibf1_snoc [OF at_wait_ibf1(3), of a v] at_wait_ibf1(2) by simp
  with l x show ?thesis by simp
next
  case (at_cmd s1)
  with assms(2) have x: "x = Inl RdWaitIbf2" and w': "w' = outb S 0x80 EC_SC w"
    by (simp_all add: ec_read_step_def)
  have "rd_progress a RdWaitIbf2 (map (In EC_SC) s1 @ [Out 0x80 EC_SC] @ map (In EC_SC) [])"
    using at_cmd(3) by (intro rd_progress.at_wait_ibf2) (simp_all add: busy_ibf_def)
  with x w' at_cmd(2) show ?thesis
    by (simp add: log_outb)
next
  case (at_wait_ibf2 s1 s)
  obtain v w1 where i: "inb S EC_SC w = (v, w1)" by (cases "inb S EC_SC w")
  with assms(2) at_wait_ibf2 have x: "x = Inl (if v AND 0x02 \<noteq> 0 then RdWaitIbf2 else RdAddr)"
    and w': "w' = w1" by (simp_all add: ec_read_step_def)
  have l: "log w' = log w @ [In EC_SC v]"
    using i w' by (simp add: inb_event)
  have "rd_progress a (if v AND 0x02 \<noteq> 0 then RdWaitIbf2 else RdAddr) (tr @ [In EC_SC v])"
    using wait_ibf2_snoc [OF at_wait_ibf2(3,4), of a v] at_wait_ibf2(2) by simp
  with l x show ?thesis by simp
next
  case (at_addr s1 s2)
  with assms(2) have x: "x = Inl RdWaitObf" and w': "w' = outb S a EC_DATA w"
    by (simp_all add: ec_read_step_def)
  have "rd_progress a RdWaitObf
      (map (In EC_SC) s1 @ [Out 0x80 EC_SC] @ map (In EC_SC) s2 @ [Out a EC_DATA] @
       map (In EC_SC) [])"
    using at_addr(3,4) by (intro rd_progress.at_wait_obf) (simp_all add: busy_obf_def)
  with x w' at_addr(2) show ?thesis
    by (simp add: log_outb)
next
  case (at_wait_obf s1 s2 s)
  obtain v w1 where i: "inb S EC_SC w = (v, w1)" by (cases "inb S EC_SC w")
  with assms(2) at_wait_obf
  have x: "x = Inl (if \<not> (v AND 0x01 \<noteq> 0) then RdWaitObf else RdData)"
    and w': "w' = w1" by (simp_all add: ec_read_step_def)
  have l: "log w' = log w @ [In EC_SC v]"
    using i w' by (simp add: inb_event)
  have "rd_progress a (if \<not> (v AND 0x01 \<noteq> 0) then RdWaitObf else RdData) (tr @ [In EC_SC v])"
    using wait_obf_snoc [OF at_wait_obf(3,4,5), of a v] at_wait_obf(2) by simp
  with l x show ?thesis by simp
next
  case (at_data s1 s2 s3)
  obtain v w1 where i: "inb S EC_DATA w = (v, w1)" by (cases "inb S EC_DATA w")
  with assms(2) at_data have x: "x = Inr v" and w': "w' = w1"
    by (simp_all add: ec_read_step_def)
  have l: "log w' = log w @ [In EC_DATA v]"
    using i w' by (simp add: inb_event)
  have "read_transaction a v (tr @ [In EC_DATA v])"
    unfolding read_transaction_def read_accesses_def using at_data by auto
  with l x show ?thesis by simp
qed

section \<open>Every call of a transaction\<close>

text \<open>
  A transaction is three waits in a row, each followed by one port access. What a wait
  followed by the rest of a function does: it hangs when no read of the status port shows
  the awaited bit, and otherwise it does what the rest does in the world after the first
  read that shows it.
\<close>

lemma ibf_clear_at_iff:
  "ibf_clear_at S n w \<longleftrightarrow>
     (\<forall>k<n. status S (polls S k w) AND 0x02 \<noteq> 0) \<and> status S (polls S n w) AND 0x02 = 0"
  by (auto simp: ibf_clear_at_def list_all_iff)

lemma obf_set_at_iff:
  "obf_set_at S n w \<longleftrightarrow>
     (\<forall>k<n. status S (polls S k w) AND 0x01 = 0) \<and> status S (polls S n w) AND 0x01 \<noteq> 0"
  by (auto simp: obf_set_at_def list_all_iff)

lemma ibf_clear_at_unique: "ibf_clear_at S m w \<Longrightarrow> ibf_clear_at S n w \<Longrightarrow> m = n"
  unfolding ibf_clear_at_iff by (metis linorder_neqE_nat)

lemma obf_set_at_unique: "obf_set_at S m w \<Longrightarrow> obf_set_at S n w \<Longrightarrow> m = n"
  unfolding obf_set_at_iff by (metis linorder_neqE_nat)

lemma ibf_clear_at_gate: "ibf_clear_at S n w \<Longrightarrow> ibf_gate (statuses S (Suc n) w)"
  by (rule ibf_gate_statuses) (simp_all add: ibf_clear_at_iff)

lemma obf_set_at_gate: "obf_set_at S n w \<Longrightarrow> obf_gate (statuses S (Suc n) w)"
  by (rule obf_gate_statuses) (simp_all add: obf_set_at_iff)

lemma wait_ibf_then_None:
  "(case ec_wait_ibf S w of None \<Rightarrow> None | Some w1 \<Rightarrow> k w1) = None \<longleftrightarrow>
     (\<forall>n. status S (polls S n w) AND 0x02 \<noteq> 0) \<or>
     (\<exists>n. ibf_clear_at S n w \<and> k (polls S (Suc n) w) = None)"
proof (cases rule: ec_wait_ibf_cases [of S w])
  case hang
  have "\<not> ibf_clear_at S n w" for n
    using hang(2) [of n] by (simp add: ibf_clear_at_iff)
  with hang show ?thesis by simp
next
  case (ret n)
  have c: "ibf_clear_at S n w"
    using ret(2,3) by (simp add: ibf_clear_at_iff)
  show ?thesis
  proof
    assume "(case ec_wait_ibf S w of None \<Rightarrow> None | Some w1 \<Rightarrow> k w1) = None"
    with ret(1) have "k (polls S (Suc n) w) = None" by simp
    with c show "(\<forall>n. status S (polls S n w) AND 0x02 \<noteq> 0) \<or>
     (\<exists>n. ibf_clear_at S n w \<and> k (polls S (Suc n) w) = None)"
      by blast
  next
    assume "(\<forall>n. status S (polls S n w) AND 0x02 \<noteq> 0) \<or>
     (\<exists>n. ibf_clear_at S n w \<and> k (polls S (Suc n) w) = None)"
    then obtain m where m: "ibf_clear_at S m w" "k (polls S (Suc m) w) = None"
      using ret(2) by blast
    from m(1) c have "m = n" by (rule ibf_clear_at_unique)
    with m(2) ret(1) show "(case ec_wait_ibf S w of None \<Rightarrow> None | Some w1 \<Rightarrow> k w1) = None"
      by simp
  qed
qed

lemma wait_ibf_then_Some:
  "(case ec_wait_ibf S w of None \<Rightarrow> None | Some w1 \<Rightarrow> k w1) = Some y \<longleftrightarrow>
     (\<exists>n. ibf_clear_at S n w \<and> k (polls S (Suc n) w) = Some y)"
proof (cases rule: ec_wait_ibf_cases [of S w])
  case hang
  have "\<not> ibf_clear_at S n w" for n
    using hang(2) [of n] by (simp add: ibf_clear_at_iff)
  with hang show ?thesis by simp
next
  case (ret n)
  have c: "ibf_clear_at S n w"
    using ret(2,3) by (simp add: ibf_clear_at_iff)
  show ?thesis
  proof
    assume "(case ec_wait_ibf S w of None \<Rightarrow> None | Some w1 \<Rightarrow> k w1) = Some y"
    with ret(1) have "k (polls S (Suc n) w) = Some y" by simp
    with c show "(\<exists>n. ibf_clear_at S n w \<and> k (polls S (Suc n) w) = Some y)"
      by blast
  next
    assume "(\<exists>n. ibf_clear_at S n w \<and> k (polls S (Suc n) w) = Some y)"
    then obtain m where m: "ibf_clear_at S m w" "k (polls S (Suc m) w) = Some y"
      using ret(2) by blast
    from m(1) c have "m = n" by (rule ibf_clear_at_unique)
    with m(2) ret(1) show "(case ec_wait_ibf S w of None \<Rightarrow> None | Some w1 \<Rightarrow> k w1) = Some y"
      by simp
  qed
qed

lemma wait_obf_then_None:
  "(case ec_wait_obf S w of None \<Rightarrow> None | Some w1 \<Rightarrow> k w1) = None \<longleftrightarrow>
     (\<forall>n. status S (polls S n w) AND 0x01 = 0) \<or>
     (\<exists>n. obf_set_at S n w \<and> k (polls S (Suc n) w) = None)"
proof (cases rule: ec_wait_obf_cases [of S w])
  case hang
  have "\<not> obf_set_at S n w" for n
    using hang(2) [of n] by (simp add: obf_set_at_iff)
  with hang show ?thesis by simp
next
  case (ret n)
  have c: "obf_set_at S n w"
    using ret(2,3) by (simp add: obf_set_at_iff)
  show ?thesis
  proof
    assume "(case ec_wait_obf S w of None \<Rightarrow> None | Some w1 \<Rightarrow> k w1) = None"
    with ret(1) have "k (polls S (Suc n) w) = None" by simp
    with c show "(\<forall>n. status S (polls S n w) AND 0x01 = 0) \<or>
     (\<exists>n. obf_set_at S n w \<and> k (polls S (Suc n) w) = None)"
      by blast
  next
    assume "(\<forall>n. status S (polls S n w) AND 0x01 = 0) \<or>
     (\<exists>n. obf_set_at S n w \<and> k (polls S (Suc n) w) = None)"
    then obtain m where m: "obf_set_at S m w" "k (polls S (Suc m) w) = None"
      using ret(2) by blast
    from m(1) c have "m = n" by (rule obf_set_at_unique)
    with m(2) ret(1) show "(case ec_wait_obf S w of None \<Rightarrow> None | Some w1 \<Rightarrow> k w1) = None"
      by simp
  qed
qed

lemma wait_obf_then_Some:
  "(case ec_wait_obf S w of None \<Rightarrow> None | Some w1 \<Rightarrow> k w1) = Some y \<longleftrightarrow>
     (\<exists>n. obf_set_at S n w \<and> k (polls S (Suc n) w) = Some y)"
proof (cases rule: ec_wait_obf_cases [of S w])
  case hang
  have "\<not> obf_set_at S n w" for n
    using hang(2) [of n] by (simp add: obf_set_at_iff)
  with hang show ?thesis by simp
next
  case (ret n)
  have c: "obf_set_at S n w"
    using ret(2,3) by (simp add: obf_set_at_iff)
  show ?thesis
  proof
    assume "(case ec_wait_obf S w of None \<Rightarrow> None | Some w1 \<Rightarrow> k w1) = Some y"
    with ret(1) have "k (polls S (Suc n) w) = Some y" by simp
    with c show "(\<exists>n. obf_set_at S n w \<and> k (polls S (Suc n) w) = Some y)"
      by blast
  next
    assume "(\<exists>n. obf_set_at S n w \<and> k (polls S (Suc n) w) = Some y)"
    then obtain m where m: "obf_set_at S m w" "k (polls S (Suc m) w) = Some y"
      using ret(2) by blast
    from m(1) c have "m = n" by (rule obf_set_at_unique)
    with m(2) ret(1) show "(case ec_wait_obf S w of None \<Rightarrow> None | Some w1 \<Rightarrow> k w1) = Some y"
      by simp
  qed
qed

lemma log_cmd_sent:
  "log (cmd_sent S c n1 w) = log w @ map (In EC_SC) (statuses S (Suc n1) w) @ [Out c EC_SC]"
  unfolding cmd_sent_def by (simp only: log_outb log_polls append_assoc)

lemma log_addr_sent:
  "log (addr_sent S c a n1 n2 w) =
     log w @ map (In EC_SC) (statuses S (Suc n1) w) @ [Out c EC_SC] @
     map (In EC_SC) (statuses S (Suc n2) (cmd_sent S c n1 w)) @ [Out a EC_DATA]"
  unfolding addr_sent_def by (simp only: log_outb log_polls log_cmd_sent append_assoc)

subsection \<open>\<^verbatim>\<open>ec_read\<close>\<close>

lemma ec_read_None_iff:
  "ec_read S addr w = None \<longleftrightarrow>
     (\<forall>n. status S (polls S n w) AND 0x02 \<noteq> 0) \<or>
     (\<exists>n1. ibf_clear_at S n1 w \<and>
        (\<forall>n. status S (polls S n (cmd_sent S 0x80 n1 w)) AND 0x02 \<noteq> 0)) \<or>
     (\<exists>n1 n2. ibf_clear_at S n1 w \<and> ibf_clear_at S n2 (cmd_sent S 0x80 n1 w) \<and>
        (\<forall>n. status S (polls S n (addr_sent S 0x80 addr n1 n2 w)) AND 0x01 = 0))"
proof -
  have "ec_read S addr w = None \<longleftrightarrow>
     (\<forall>n. status S (polls S n w) AND 0x02 \<noteq> 0) \<or>
     (\<exists>n1. ibf_clear_at S n1 w \<and>
        ((\<forall>n. status S (polls S n (cmd_sent S 0x80 n1 w)) AND 0x02 \<noteq> 0) \<or>
         (\<exists>n2. ibf_clear_at S n2 (cmd_sent S 0x80 n1 w) \<and>
            ((\<forall>n. status S (polls S n (addr_sent S 0x80 addr n1 n2 w)) AND 0x01 = 0) \<or>
             (\<exists>n3. obf_set_at S n3 (addr_sent S 0x80 addr n1 n2 w) \<and>
                Some (inb S EC_DATA (polls S (Suc n3) (addr_sent S 0x80 addr n1 n2 w))) =
                  None)))))"
    unfolding ec_read_def cmd_sent_def addr_sent_def
    by (simp only: wait_ibf_then_None wait_obf_then_None)
  then show ?thesis by blast
qed

lemma ec_read_Some_iff:
  "ec_read S addr w = Some (v, w') \<longleftrightarrow>
     (\<exists>n1 n2 n3. ibf_clear_at S n1 w \<and> ibf_clear_at S n2 (cmd_sent S 0x80 n1 w) \<and>
        obf_set_at S n3 (addr_sent S 0x80 addr n1 n2 w) \<and>
        inb S EC_DATA (polls S (Suc n3) (addr_sent S 0x80 addr n1 n2 w)) = (v, w'))"
proof -
  have "ec_read S addr w = Some (v, w') \<longleftrightarrow>
     (\<exists>n1. ibf_clear_at S n1 w \<and>
        (\<exists>n2. ibf_clear_at S n2 (cmd_sent S 0x80 n1 w) \<and>
           (\<exists>n3. obf_set_at S n3 (addr_sent S 0x80 addr n1 n2 w) \<and>
              Some (inb S EC_DATA (polls S (Suc n3) (addr_sent S 0x80 addr n1 n2 w))) =
                Some (v, w'))))"
    unfolding ec_read_def cmd_sent_def addr_sent_def
    by (simp only: wait_ibf_then_Some wait_obf_then_Some)
  then show ?thesis by blast
qed

lemma ec_read_run_log:
  assumes "inb S EC_DATA (polls S (Suc n3) (addr_sent S 0x80 addr n1 n2 w)) = (v, w')"
  shows "log w' = log w @
     map (In EC_SC) (statuses S (Suc n1) w) @ [Out 0x80 EC_SC] @
     map (In EC_SC) (statuses S (Suc n2) (cmd_sent S 0x80 n1 w)) @ [Out addr EC_DATA] @
     map (In EC_SC) (statuses S (Suc n3) (addr_sent S 0x80 addr n1 n2 w)) @ [In EC_DATA v]"
proof -
  have "log w' = log (polls S (Suc n3) (addr_sent S 0x80 addr n1 n2 w)) @ [In EC_DATA v]"
    using assms by (rule inb_event)
  then show ?thesis
    by (simp only: log_polls log_addr_sent append_assoc)
qed

lemma ec_read_steps_Inr: "ec_read_steps S a n (Inr v, w) = (Inr v, w)"
  by (cases n) simp_all

lemma ec_read_steps_progress:
  assumes "rd_progress a pc tr" and "log w = l0 @ tr"
  shows "\<exists>x w1 tr'. ec_read_steps S a n (Inl pc, w) = (x, w1) \<and> log w1 = l0 @ tr' \<and>
           (case x of Inl pc' \<Rightarrow> rd_progress a pc' tr' | Inr u \<Rightarrow> read_transaction a u tr')"
  using assms
proof (induction n arbitrary: pc w tr)
  case 0
  then show ?case by auto
next
  case (Suc n)
  obtain x w1 where s: "ec_read_step S a pc w = (x, w1)"
    by (cases "ec_read_step S a pc w")
  from rd_progress_step [OF Suc.prems(1) s] obtain e where
    e: "log w1 = log w @ [e]" and
    c: "case x of Inl pc' \<Rightarrow> rd_progress a pc' (tr @ [e])
                | Inr v \<Rightarrow> read_transaction a v (tr @ [e])"
    by blast
  from e Suc.prems(2) have l: "log w1 = l0 @ (tr @ [e])" by simp
  show ?case
  proof (cases x)
    case (Inl pc')
    with c have "rd_progress a pc' (tr @ [e])" by simp
    from Suc.IH [OF this l] s Inl show ?thesis by simp
  next
    case (Inr u)
    with c have "read_transaction a u (tr @ [e])" by simp
    with s Inr l show ?thesis
      by (auto simp: ec_read_steps_Inr)
  qed
qed

lemma sim_statuses:
  "busy (hw w) = b \<Longrightarrow>
   statuses sim_ec (Suc b) w = replicate b 0x02 @ [if obuf (hw w) = None then 0x00 else 0x01] \<and>
   hw (polls sim_ec (Suc b) w) = (hw w)\<lparr>busy := 0\<rparr> \<and>
   ibf_clear_at sim_ec b w \<and> (obuf (hw w) \<noteq> None \<longrightarrow> obf_set_at sim_ec b w)"
proof (induction b arbitrary: w)
  case 0
  then show ?case
    by (simp add: ibf_clear_at_def obf_set_at_def status_def inb_def sim_ec_def sim_inb_def)
next
  case (Suc b)
  let ?w1 = "snd (inb sim_ec EC_SC w)"
  from Suc.prems have s: "status sim_ec w = 0x02" and h: "hw ?w1 = (hw w)\<lparr>busy := b\<rparr>"
    by (simp_all add: status_def inb_def sim_ec_def sim_inb_def)
  from h have "busy (hw ?w1) = b" by simp
  note IH = Suc.IH [OF this]
  have 1: "statuses sim_ec (Suc (Suc b)) w =
      replicate (Suc b) 0x02 @ [if obuf (hw w) = None then 0x00 else 0x01]"
    using IH s h by simp
  have 2: "hw (polls sim_ec (Suc (Suc b)) w) = (hw w)\<lparr>busy := 0\<rparr>"
    using IH h by simp
  have 3: "ibf_clear_at sim_ec (Suc b) w"
    unfolding ibf_clear_at_iff
  proof (intro conjI allI impI)
    fix k assume "k < Suc b"
    show "status sim_ec (polls sim_ec k w) AND 0x02 \<noteq> 0"
    proof (cases k)
      case 0
      with s show ?thesis by simp
    next
      case (Suc j)
      with \<open>k < Suc b\<close> IH show ?thesis by (simp add: ibf_clear_at_iff)
    qed
  next
    from IH show "status sim_ec (polls sim_ec (Suc b) w) AND 0x02 = 0"
      by (simp add: ibf_clear_at_iff)
  qed
  have 4: "obf_set_at sim_ec (Suc b) w" if "obuf (hw w) \<noteq> None"
    unfolding obf_set_at_iff
  proof (intro conjI allI impI)
    fix k assume "k < Suc b"
    show "status sim_ec (polls sim_ec k w) AND 0x01 = 0"
    proof (cases k)
      case 0
      with s show ?thesis by simp
    next
      case (Suc j)
      with \<open>k < Suc b\<close> IH that h show ?thesis by (simp add: obf_set_at_iff)
    qed
  next
    from IH that h show "status sim_ec (polls sim_ec (Suc b) w) AND 0x01 \<noteq> 0"
      by (simp add: obf_set_at_iff)
  qed
  from 1 2 3 4 show ?case by blast
qed

lemma hw_outb_sim: "hw (outb sim_ec v p w) = sim_outb v p (hw w)"
  by (simp add: outb_def sim_ec_def)

lemma sim_ec_read_run:
  fixes w :: "sim world"
  defines "s \<equiv> (if obuf (hw w) = None then 0x00 else 0x01 :: u8)"
  shows "\<exists>w'. ec_read sim_ec a w = Some (regs (hw w) a, w') \<and>
        hw w' = (hw w)\<lparr>phase := Idle, obuf := None, busy := 0\<rparr> \<and>
        log w' = log w @
          replicate (busy (hw w)) (In EC_SC 0x02) @ [In EC_SC s, Out 0x80 EC_SC] @
          replicate (latency (hw w)) (In EC_SC 0x02) @ [In EC_SC s, Out a EC_DATA] @
          replicate (latency (hw w)) (In EC_SC 0x02) @ [In EC_SC 0x01, In EC_DATA (regs (hw w) a)]"
proof -
  let ?b = "busy (hw w)" and ?L = "latency (hw w)"
  let ?c = "cmd_sent sim_ec 0x80 ?b w"
  let ?a = "addr_sent sim_ec 0x80 a ?b ?L w"
  note 1 = sim_statuses [of w ?b, OF refl]
  have hc: "hw ?c = (hw w)\<lparr>busy := ?L, phase := ReadCmd\<rparr>"
    using 1 by (simp add: cmd_sent_def hw_outb_sim sim_outb_def)
  then have "busy (hw ?c) = ?L" by simp
  note 2 = sim_statuses [OF this]
  have ha: "hw ?a = (hw w)\<lparr>busy := ?L, phase := Idle, obuf := Some (regs (hw w) a)\<rparr>"
    using 2 hc by (simp add: addr_sent_def hw_outb_sim sim_outb_def EC_SC_def EC_DATA_def)
  then have "busy (hw ?a) = ?L" by simp
  note 3 = sim_statuses [OF this]
  let ?w3 = "polls sim_ec (Suc ?L) ?a"
  have h3: "hw ?w3 = (hw w)\<lparr>busy := 0, phase := Idle, obuf := Some (regs (hw w) a)\<rparr>"
    using 3 ha by simp
  obtain w' where d: "inb sim_ec EC_DATA ?w3 = (regs (hw w) a, w')"
    and h': "hw w' = (hw w)\<lparr>phase := Idle, obuf := None, busy := 0\<rparr>"
    using h3 by (simp add: inb_def sim_ec_def sim_inb_def EC_SC_def EC_DATA_def)
  have i1: "ibf_clear_at sim_ec ?b w" and i2: "ibf_clear_at sim_ec ?L ?c"
    using 1 2 by simp_all
  have o3: "obf_set_at sim_ec ?L ?a"
    using 3 ha by simp
  have r: "ec_read sim_ec a w = Some (regs (hw w) a, w')"
    unfolding ec_read_Some_iff
    by (rule exI [of _ ?b], rule exI [of _ ?L], rule exI [of _ ?L]) (simp only: i1 i2 o3 d simp_thms)
  have l: "log w' = log w @
      map (In EC_SC) (statuses sim_ec (Suc ?b) w) @ [Out 0x80 EC_SC] @
      map (In EC_SC) (statuses sim_ec (Suc ?L) ?c) @ [Out a EC_DATA] @
      map (In EC_SC) (statuses sim_ec (Suc ?L) ?a) @ [In EC_DATA (regs (hw w) a)]"
    using d by (rule ec_read_run_log)
  have s1: "statuses sim_ec (Suc ?b) w = replicate ?b 0x02 @ [s]"
    using 1 by (simp only: s_def)
  have "obuf (hw ?c) = obuf (hw w)"
    using hc by simp
  with 2 have s2: "statuses sim_ec (Suc ?L) ?c = replicate ?L 0x02 @ [s]"
    by (simp only: s_def)
  have "obuf (hw ?a) \<noteq> None"
    using ha by simp
  with 3 have s3: "statuses sim_ec (Suc ?L) ?a = replicate ?L 0x02 @ [0x01]"
    by (simp only: if_False)
  have "log w' = log w @
      map (In EC_SC) (replicate ?b 0x02 @ [s]) @ [Out 0x80 EC_SC] @
      map (In EC_SC) (replicate ?L 0x02 @ [s]) @ [Out a EC_DATA] @
      map (In EC_SC) (replicate ?L 0x02 @ [0x01]) @ [In EC_DATA (regs (hw w) a)]"
    using l by (simp only: s1 s2 s3)
  then have "log w' = log w @
          replicate ?b (In EC_SC 0x02) @ [In EC_SC s, Out 0x80 EC_SC] @
          replicate ?L (In EC_SC 0x02) @ [In EC_SC s, Out a EC_DATA] @
          replicate ?L (In EC_SC 0x02) @ [In EC_SC 0x01, In EC_DATA (regs (hw w) a)]"
    by simp
  with r h' show ?thesis by blast
qed

text \<open>
  C1. Every call of \<^verbatim>\<open>ec_read\<close>, for every address and every machine. The call
  hangs exactly when one of its three waits sees no status byte with the awaited bit: at
  once, or after the command \<open>0x80\<close>, or after the command and the address. It
  returns \<open>v\<close> exactly when read \<open>n1\<close> of the status port is the first with bit 1
  clear, then \<open>0x80\<close> is written to the command port, read \<open>n2\<close> is the first with
  bit 1 clear, then the address is written to the data port, read \<open>n3\<close> is the first
  with bit 0 set, and then the data port reads \<open>v\<close>; these are all its port accesses.
  At every moment of a call, also of one that hangs, the accesses made so far are an
  initial part of this sequence. On the simulated controller of latency \<open>L\<close> the
  call returns the register.
\<close>

theorem ec_read_accesses:
  "(ec_read S addr w = None \<longleftrightarrow>
      (\<forall>n. status S (polls S n w) AND 0x02 \<noteq> 0) \<or>
      (\<exists>n1. ibf_clear_at S n1 w \<and>
         (\<forall>n. status S (polls S n (cmd_sent S 0x80 n1 w)) AND 0x02 \<noteq> 0)) \<or>
      (\<exists>n1 n2. ibf_clear_at S n1 w \<and> ibf_clear_at S n2 (cmd_sent S 0x80 n1 w) \<and>
         (\<forall>n. status S (polls S n (addr_sent S 0x80 addr n1 n2 w)) AND 0x01 = 0))) \<and>
   (ec_read S addr w = Some (v, w') \<longleftrightarrow>
      (\<exists>n1 n2 n3. ibf_clear_at S n1 w \<and> ibf_clear_at S n2 (cmd_sent S 0x80 n1 w) \<and>
         obf_set_at S n3 (addr_sent S 0x80 addr n1 n2 w) \<and>
         inb S EC_DATA (polls S (Suc n3) (addr_sent S 0x80 addr n1 n2 w)) = (v, w') \<and>
         ibf_gate (statuses S (Suc n1) w) \<and>
         ibf_gate (statuses S (Suc n2) (cmd_sent S 0x80 n1 w)) \<and>
         obf_gate (statuses S (Suc n3) (addr_sent S 0x80 addr n1 n2 w)) \<and>
         log w' = log w @
           map (In EC_SC) (statuses S (Suc n1) w) @ [Out 0x80 EC_SC] @
           map (In EC_SC) (statuses S (Suc n2) (cmd_sent S 0x80 n1 w)) @ [Out addr EC_DATA] @
           map (In EC_SC) (statuses S (Suc n3) (addr_sent S 0x80 addr n1 n2 w)) @
           [In EC_DATA v])) \<and>
   (\<exists>x w1 tr. ec_read_steps S addr n (Inl RdWaitIbf1, w) = (x, w1) \<and> log w1 = log w @ tr \<and>
      (case x of Inl pc \<Rightarrow> rd_progress addr pc tr
               | Inr u \<Rightarrow> read_transaction addr u tr \<and> ec_read S addr w = Some (u, w1))) \<and>
   (\<exists>w2. ec_read sim_ec addr (sim_init r L ok) = Some (r addr, w2) \<and>
      log w2 =
        replicate L (In EC_SC 0x02) @ [In EC_SC 0x00, Out 0x80 EC_SC] @
        replicate L (In EC_SC 0x02) @ [In EC_SC 0x00, Out addr EC_DATA] @
        replicate L (In EC_SC 0x02) @ [In EC_SC 0x01, In EC_DATA (r addr)])"
proof -
  have some: "ec_read S addr w = Some (v, w') \<longleftrightarrow>
      (\<exists>n1 n2 n3. ibf_clear_at S n1 w \<and> ibf_clear_at S n2 (cmd_sent S 0x80 n1 w) \<and>
         obf_set_at S n3 (addr_sent S 0x80 addr n1 n2 w) \<and>
         inb S EC_DATA (polls S (Suc n3) (addr_sent S 0x80 addr n1 n2 w)) = (v, w') \<and>
         ibf_gate (statuses S (Suc n1) w) \<and>
         ibf_gate (statuses S (Suc n2) (cmd_sent S 0x80 n1 w)) \<and>
         obf_gate (statuses S (Suc n3) (addr_sent S 0x80 addr n1 n2 w)) \<and>
         log w' = log w @
           map (In EC_SC) (statuses S (Suc n1) w) @ [Out 0x80 EC_SC] @
           map (In EC_SC) (statuses S (Suc n2) (cmd_sent S 0x80 n1 w)) @ [Out addr EC_DATA] @
           map (In EC_SC) (statuses S (Suc n3) (addr_sent S 0x80 addr n1 n2 w)) @
           [In EC_DATA v])"
    unfolding ec_read_Some_iff
    using ibf_clear_at_gate obf_set_at_gate ec_read_run_log by blast
  have steps: "\<exists>x w1 tr. ec_read_steps S addr n (Inl RdWaitIbf1, w) = (x, w1) \<and>
      log w1 = log w @ tr \<and>
      (case x of Inl pc \<Rightarrow> rd_progress addr pc tr
               | Inr u \<Rightarrow> read_transaction addr u tr \<and> ec_read S addr w = Some (u, w1))"
  proof -
    from ec_read_steps_progress [of addr RdWaitIbf1 "[]" w "log w" S n] obtain x w1 tr where
      s: "ec_read_steps S addr n (Inl RdWaitIbf1, w) = (x, w1)" and l: "log w1 = log w @ tr"
      and c: "case x of Inl pc' \<Rightarrow> rd_progress addr pc' tr | Inr u \<Rightarrow> read_transaction addr u tr"
      by (auto simp: rd_progress_start)
    show ?thesis
    proof (cases x)
      case (Inl pc)
      with s l c show ?thesis by auto
    next
      case (Inr u)
      with s have "ec_read S addr w = Some (u, w1)"
        unfolding ec_read_steps_iff by blast
      with s l c Inr show ?thesis by auto
    qed
  qed
  have sim: "\<exists>w2. ec_read sim_ec addr (sim_init r L ok) = Some (r addr, w2) \<and>
      log w2 =
        replicate L (In EC_SC 0x02) @ [In EC_SC 0x00, Out 0x80 EC_SC] @
        replicate L (In EC_SC 0x02) @ [In EC_SC 0x00, Out addr EC_DATA] @
        replicate L (In EC_SC 0x02) @ [In EC_SC 0x01, In EC_DATA (r addr)]"
    using sim_ec_read_run [of addr "sim_init r L ok"] by (auto simp: sim_init_def)
  from ec_read_None_iff [of S addr w] some steps sim show ?thesis by blast
qed

lemma stuck_status: "status stuck_ec (polls stuck_ec n w) AND 0x02 \<noteq> 0"
  by (simp add: status_def inb_def stuck_ec_def)

lemma stuck_read: "ec_read stuck_ec a w = None"
  unfolding ec_read_None_iff using stuck_status by blast

text \<open>
  Register \<open>0x50\<close> of a simulated controller of latency 1 holding \<open>0x51\<close>: the
  call returns it after these nine accesses. On the controller that never clears IBF
  the call hangs.
\<close>

theorem ec_read_accesses_witness:
  "(\<exists>w'. ec_read sim_ec 0x50 (sim_init (\<lambda>a. a + 1) 1 True) = Some (0x51, w') \<and>
      log w' = [In 0x66 2, In 0x66 0, Out 0x80 0x66, In 0x66 2, In 0x66 0, Out 0x50 0x62,
                In 0x66 2, In 0x66 1, In 0x62 0x51]) \<and>
   ec_read stuck_ec 0x50 \<lparr>hw = (), log = []\<rparr> = None"
proof -
  have "\<exists>w2. ec_read sim_ec 0x50 (sim_init (\<lambda>a. a + 1) 1 True) = Some (0x50 + 1, w2) \<and>
      log w2 =
        replicate 1 (In EC_SC 0x02) @ [In EC_SC 0x00, Out 0x80 EC_SC] @
        replicate 1 (In EC_SC 0x02) @ [In EC_SC 0x00, Out 0x50 EC_DATA] @
        replicate 1 (In EC_SC 0x02) @ [In EC_SC 0x01, In EC_DATA (0x50 + 1)]"
    using ec_read_accesses [where S = sim_ec and addr = "0x50" and w = "sim_init (\<lambda>a. a + 1) 1 True"
        and v = 0 and w' = "sim_init (\<lambda>a. a + 1) 1 True" and n = 0
        and r = "\<lambda>a. a + 1" and L = 1 and ok = True]
    by (elim conjE)
  then have a: "\<exists>w'. ec_read sim_ec 0x50 (sim_init (\<lambda>a. a + 1) 1 True) = Some (0x51, w') \<and>
      log w' = [In 0x66 2, In 0x66 0, Out 0x80 0x66, In 0x66 2, In 0x66 0, Out 0x50 0x62,
                In 0x66 2, In 0x66 1, In 0x62 0x51]"
    by (auto simp: EC_SC_def EC_DATA_def)
  have b: "ec_read stuck_ec 0x50 \<lparr>hw = (), log = []\<rparr> = None"
    using ec_read_accesses [where S = stuck_ec and addr = "0x50" and w = "\<lparr>hw = (), log = []\<rparr>"
        and v = 0 and w' = "\<lparr>hw = (), log = []\<rparr>" and n = 0
        and r = "\<lambda>a. a" and L = 0 and ok = True]
      stuck_status
    by blast
  from a b show ?thesis ..
qed

subsection \<open>\<^verbatim>\<open>ec_write\<close>\<close>

lemma ec_write_None_iff:
  "ec_write S addr val w = None \<longleftrightarrow>
     (\<forall>n. status S (polls S n w) AND 0x02 \<noteq> 0) \<or>
     (\<exists>n1. ibf_clear_at S n1 w \<and>
        (\<forall>n. status S (polls S n (cmd_sent S 0x81 n1 w)) AND 0x02 \<noteq> 0)) \<or>
     (\<exists>n1 n2. ibf_clear_at S n1 w \<and> ibf_clear_at S n2 (cmd_sent S 0x81 n1 w) \<and>
        (\<forall>n. status S (polls S n (addr_sent S 0x81 addr n1 n2 w)) AND 0x02 \<noteq> 0))"
proof -
  have "ec_write S addr val w = None \<longleftrightarrow>
     (\<forall>n. status S (polls S n w) AND 0x02 \<noteq> 0) \<or>
     (\<exists>n1. ibf_clear_at S n1 w \<and>
        ((\<forall>n. status S (polls S n (cmd_sent S 0x81 n1 w)) AND 0x02 \<noteq> 0) \<or>
         (\<exists>n2. ibf_clear_at S n2 (cmd_sent S 0x81 n1 w) \<and>
            ((\<forall>n. status S (polls S n (addr_sent S 0x81 addr n1 n2 w)) AND 0x02 \<noteq> 0) \<or>
             (\<exists>n3. ibf_clear_at S n3 (addr_sent S 0x81 addr n1 n2 w) \<and>
                Some (outb S val EC_DATA (polls S (Suc n3) (addr_sent S 0x81 addr n1 n2 w))) =
                  None)))))"
    unfolding ec_write_def cmd_sent_def addr_sent_def
    by (simp only: wait_ibf_then_None)
  then show ?thesis by blast
qed

lemma ec_write_Some_iff:
  "ec_write S addr val w = Some w' \<longleftrightarrow>
     (\<exists>n1 n2 n3. ibf_clear_at S n1 w \<and> ibf_clear_at S n2 (cmd_sent S 0x81 n1 w) \<and>
        ibf_clear_at S n3 (addr_sent S 0x81 addr n1 n2 w) \<and>
        w' = outb S val EC_DATA (polls S (Suc n3) (addr_sent S 0x81 addr n1 n2 w)))"
proof -
  have "ec_write S addr val w = Some w' \<longleftrightarrow>
     (\<exists>n1. ibf_clear_at S n1 w \<and>
        (\<exists>n2. ibf_clear_at S n2 (cmd_sent S 0x81 n1 w) \<and>
           (\<exists>n3. ibf_clear_at S n3 (addr_sent S 0x81 addr n1 n2 w) \<and>
              Some (outb S val EC_DATA (polls S (Suc n3) (addr_sent S 0x81 addr n1 n2 w))) =
                Some w')))"
    unfolding ec_write_def cmd_sent_def addr_sent_def
    by (simp only: wait_ibf_then_Some)
  then show ?thesis by blast
qed

lemma ec_write_run_log:
  "log (outb S val EC_DATA (polls S (Suc n3) (addr_sent S 0x81 addr n1 n2 w))) = log w @
     map (In EC_SC) (statuses S (Suc n1) w) @ [Out 0x81 EC_SC] @
     map (In EC_SC) (statuses S (Suc n2) (cmd_sent S 0x81 n1 w)) @ [Out addr EC_DATA] @
     map (In EC_SC) (statuses S (Suc n3) (addr_sent S 0x81 addr n1 n2 w)) @ [Out val EC_DATA]"
  by (simp only: log_outb log_polls log_addr_sent append_assoc)

lemma no_data_read:
  "In EC_DATA x \<notin> set (map (In EC_SC) s1 @ [Out c EC_SC] @ map (In EC_SC) s2 @ [Out a EC_DATA] @
     map (In EC_SC) s3 @ [Out v EC_DATA])"
  by (auto simp: EC_SC_def EC_DATA_def)

lemma sim_ec_write_run:
  fixes w :: "sim world"
  defines "s \<equiv> (if obuf (hw w) = None then 0x00 else 0x01 :: u8)"
  shows "\<exists>w'. ec_write sim_ec a v w = Some w' \<and>
        hw w' = (hw w)\<lparr>regs := (regs (hw w))(a := v), phase := Idle, busy := latency (hw w)\<rparr> \<and>
        log w' = log w @
          replicate (busy (hw w)) (In EC_SC 0x02) @ [In EC_SC s, Out 0x81 EC_SC] @
          replicate (latency (hw w)) (In EC_SC 0x02) @ [In EC_SC s, Out a EC_DATA] @
          replicate (latency (hw w)) (In EC_SC 0x02) @ [In EC_SC s, Out v EC_DATA]"
proof -
  let ?b = "busy (hw w)" and ?L = "latency (hw w)"
  let ?c = "cmd_sent sim_ec 0x81 ?b w"
  let ?a = "addr_sent sim_ec 0x81 a ?b ?L w"
  note 1 = sim_statuses [of w ?b, OF refl]
  have hc: "hw ?c = (hw w)\<lparr>busy := ?L, phase := WriteCmd\<rparr>"
    using 1 by (simp add: cmd_sent_def hw_outb_sim sim_outb_def)
  then have "busy (hw ?c) = ?L" by simp
  note 2 = sim_statuses [OF this]
  have ha: "hw ?a = (hw w)\<lparr>busy := ?L, phase := WriteAddr a\<rparr>"
    using 2 hc by (simp add: addr_sent_def hw_outb_sim sim_outb_def EC_SC_def EC_DATA_def)
  then have "busy (hw ?a) = ?L" by simp
  note 3 = sim_statuses [OF this]
  let ?w' = "outb sim_ec v EC_DATA (polls sim_ec (Suc ?L) ?a)"
  have h': "hw ?w' = (hw w)\<lparr>regs := (regs (hw w))(a := v), phase := Idle, busy := ?L\<rparr>"
    using 3 ha by (simp add: hw_outb_sim sim_outb_def EC_SC_def EC_DATA_def)
  have i1: "ibf_clear_at sim_ec ?b w" and i2: "ibf_clear_at sim_ec ?L ?c"
    and i3: "ibf_clear_at sim_ec ?L ?a"
    using 1 2 3 by simp_all
  have r: "ec_write sim_ec a v w = Some ?w'"
    unfolding ec_write_Some_iff
    by (rule exI [of _ ?b], rule exI [of _ ?L], rule exI [of _ ?L]) (simp only: i1 i2 i3 simp_thms)
  have s1: "statuses sim_ec (Suc ?b) w = replicate ?b 0x02 @ [s]"
    using 1 by (simp only: s_def)
  have "obuf (hw ?c) = obuf (hw w)"
    using hc by simp
  with 2 have s2: "statuses sim_ec (Suc ?L) ?c = replicate ?L 0x02 @ [s]"
    by (simp only: s_def)
  have "obuf (hw ?a) = obuf (hw w)"
    using ha by simp
  with 3 have s3: "statuses sim_ec (Suc ?L) ?a = replicate ?L 0x02 @ [s]"
    by (simp only: s_def)
  have "log ?w' = log w @
      map (In EC_SC) (replicate ?b 0x02 @ [s]) @ [Out 0x81 EC_SC] @
      map (In EC_SC) (replicate ?L 0x02 @ [s]) @ [Out a EC_DATA] @
      map (In EC_SC) (replicate ?L 0x02 @ [s]) @ [Out v EC_DATA]"
    by (simp only: ec_write_run_log s1 s2 s3)
  then have "log ?w' = log w @
          replicate ?b (In EC_SC 0x02) @ [In EC_SC s, Out 0x81 EC_SC] @
          replicate ?L (In EC_SC 0x02) @ [In EC_SC s, Out a EC_DATA] @
          replicate ?L (In EC_SC 0x02) @ [In EC_SC s, Out v EC_DATA]"
    by simp
  with r h' show ?thesis by blast
qed

text \<open>
  C2. Every call of \<^verbatim>\<open>ec_write\<close>, for every address, value and machine. The call
  hangs exactly when one of its three waits sees no status byte with bit 1 clear: at
  once, or after the command \<open>0x81\<close>, or after the command and the address. It
  returns exactly when read \<open>n1\<close> of the status port is the first with bit 1 clear,
  then \<open>0x81\<close> is written to the command port, read \<open>n2\<close> is the first with bit 1
  clear, then the address is written to the data port, read \<open>n3\<close> is the first with
  bit 1 clear, and then the value is written to the data port; these three writes and
  the reads of the status port are all its port accesses, and the data port is never
  read. On the simulated controller of latency \<open>L\<close> the call returns and the
  register holds the value.
\<close>

theorem ec_write_accesses:
  "(ec_write S addr val w = None \<longleftrightarrow>
      (\<forall>n. status S (polls S n w) AND 0x02 \<noteq> 0) \<or>
      (\<exists>n1. ibf_clear_at S n1 w \<and>
         (\<forall>n. status S (polls S n (cmd_sent S 0x81 n1 w)) AND 0x02 \<noteq> 0)) \<or>
      (\<exists>n1 n2. ibf_clear_at S n1 w \<and> ibf_clear_at S n2 (cmd_sent S 0x81 n1 w) \<and>
         (\<forall>n. status S (polls S n (addr_sent S 0x81 addr n1 n2 w)) AND 0x02 \<noteq> 0))) \<and>
   (ec_write S addr val w = Some w' \<longleftrightarrow>
      (\<exists>n1 n2 n3. ibf_clear_at S n1 w \<and> ibf_clear_at S n2 (cmd_sent S 0x81 n1 w) \<and>
         ibf_clear_at S n3 (addr_sent S 0x81 addr n1 n2 w) \<and>
         w' = outb S val EC_DATA (polls S (Suc n3) (addr_sent S 0x81 addr n1 n2 w)) \<and>
         ibf_gate (statuses S (Suc n1) w) \<and>
         ibf_gate (statuses S (Suc n2) (cmd_sent S 0x81 n1 w)) \<and>
         ibf_gate (statuses S (Suc n3) (addr_sent S 0x81 addr n1 n2 w)) \<and>
         log w' = log w @
           map (In EC_SC) (statuses S (Suc n1) w) @ [Out 0x81 EC_SC] @
           map (In EC_SC) (statuses S (Suc n2) (cmd_sent S 0x81 n1 w)) @ [Out addr EC_DATA] @
           map (In EC_SC) (statuses S (Suc n3) (addr_sent S 0x81 addr n1 n2 w)) @
           [Out val EC_DATA] \<and>
         (\<forall>x. In EC_DATA x \<notin> set (drop (length (log w)) (log w'))))) \<and>
   (\<exists>w2. ec_write sim_ec addr val (sim_init r L ok) = Some w2 \<and>
      regs (hw w2) = r(addr := val) \<and>
      log w2 =
        replicate L (In EC_SC 0x02) @ [In EC_SC 0x00, Out 0x81 EC_SC] @
        replicate L (In EC_SC 0x02) @ [In EC_SC 0x00, Out addr EC_DATA] @
        replicate L (In EC_SC 0x02) @ [In EC_SC 0x00, Out val EC_DATA])"
proof -
  have nd: "\<forall>x. In EC_DATA x \<notin> set (drop (length (log w))
      (log (outb S val EC_DATA (polls S (Suc n3) (addr_sent S 0x81 addr n1 n2 w)))))" for n1 n2 n3
  proof -
    have "drop (length (log w)) (log w @ l) = l" for l :: "event list"
      by simp
    then show ?thesis
      by (simp only: ec_write_run_log no_data_read simp_thms)
  qed
  have some: "ec_write S addr val w = Some w' \<longleftrightarrow>
      (\<exists>n1 n2 n3. ibf_clear_at S n1 w \<and> ibf_clear_at S n2 (cmd_sent S 0x81 n1 w) \<and>
         ibf_clear_at S n3 (addr_sent S 0x81 addr n1 n2 w) \<and>
         w' = outb S val EC_DATA (polls S (Suc n3) (addr_sent S 0x81 addr n1 n2 w)) \<and>
         ibf_gate (statuses S (Suc n1) w) \<and>
         ibf_gate (statuses S (Suc n2) (cmd_sent S 0x81 n1 w)) \<and>
         ibf_gate (statuses S (Suc n3) (addr_sent S 0x81 addr n1 n2 w)) \<and>
         log w' = log w @
           map (In EC_SC) (statuses S (Suc n1) w) @ [Out 0x81 EC_SC] @
           map (In EC_SC) (statuses S (Suc n2) (cmd_sent S 0x81 n1 w)) @ [Out addr EC_DATA] @
           map (In EC_SC) (statuses S (Suc n3) (addr_sent S 0x81 addr n1 n2 w)) @
           [Out val EC_DATA] \<and>
         (\<forall>x. In EC_DATA x \<notin> set (drop (length (log w)) (log w'))))"
    unfolding ec_write_Some_iff
    using ibf_clear_at_gate ec_write_run_log nd by blast
  have sim: "\<exists>w2. ec_write sim_ec addr val (sim_init r L ok) = Some w2 \<and>
      regs (hw w2) = r(addr := val) \<and>
      log w2 =
        replicate L (In EC_SC 0x02) @ [In EC_SC 0x00, Out 0x81 EC_SC] @
        replicate L (In EC_SC 0x02) @ [In EC_SC 0x00, Out addr EC_DATA] @
        replicate L (In EC_SC 0x02) @ [In EC_SC 0x00, Out val EC_DATA]"
    using sim_ec_write_run [of addr val "sim_init r L ok"] by (auto simp: sim_init_def)
  from ec_write_None_iff [of S addr val w] some sim show ?thesis by blast
qed

text \<open>
  Writing 7 to register \<open>0x50\<close> of a simulated controller of latency 1: the call
  returns after these nine accesses. On the controller that never clears IBF the call
  hangs.
\<close>

theorem ec_write_accesses_witness:
  "(\<exists>w'. ec_write sim_ec 0x50 7 (sim_init (\<lambda>a. a + 1) 1 True) = Some w' \<and>
      regs (hw w') 0x50 = 7 \<and>
      log w' = [In 0x66 2, In 0x66 0, Out 0x81 0x66, In 0x66 2, In 0x66 0, Out 0x50 0x62,
                In 0x66 2, In 0x66 0, Out 7 0x62]) \<and>
   ec_write stuck_ec 0x50 7 \<lparr>hw = (), log = []\<rparr> = None"
proof -
  have "\<exists>w2. ec_write sim_ec 0x50 7 (sim_init (\<lambda>a. a + 1) 1 True) = Some w2 \<and>
      regs (hw w2) = (\<lambda>a. a + 1)(0x50 := 7) \<and>
      log w2 =
        replicate 1 (In EC_SC 0x02) @ [In EC_SC 0x00, Out 0x81 EC_SC] @
        replicate 1 (In EC_SC 0x02) @ [In EC_SC 0x00, Out 0x50 EC_DATA] @
        replicate 1 (In EC_SC 0x02) @ [In EC_SC 0x00, Out 7 EC_DATA]"
    using ec_write_accesses [where S = sim_ec and addr = "0x50" and val = 7
        and w = "sim_init (\<lambda>a. a + 1) 1 True" and w' = "sim_init (\<lambda>a. a + 1) 1 True"
        and r = "\<lambda>a. a + 1" and L = 1 and ok = True]
    by (elim conjE)
  then have a: "\<exists>w'. ec_write sim_ec 0x50 7 (sim_init (\<lambda>a. a + 1) 1 True) = Some w' \<and>
      regs (hw w') 0x50 = 7 \<and>
      log w' = [In 0x66 2, In 0x66 0, Out 0x81 0x66, In 0x66 2, In 0x66 0, Out 0x50 0x62,
                In 0x66 2, In 0x66 0, Out 7 0x62]"
    by (auto simp: EC_SC_def EC_DATA_def)
  have b: "ec_write stuck_ec 0x50 7 \<lparr>hw = (), log = []\<rparr> = None"
    using ec_write_accesses [where S = stuck_ec and addr = "0x50" and val = 7
        and w = "\<lparr>hw = (), log = []\<rparr>" and w' = "\<lparr>hw = (), log = []\<rparr>"
        and r = "\<lambda>a. a" and L = 0 and ok = True]
      stuck_status
    by blast
  from a b show ?thesis ..
qed

section \<open>The transactions against the simulated controller\<close>

text \<open>
  C4. Against the simulated controller, in whatever state it is, with whatever
  latency: \<^verbatim>\<open>ec_write(A, V)\<close> returns, \<^verbatim>\<open>ec_read(A)\<close> right after it returns
  \<open>V\<close>, and no other register has changed. The round trip goes through the
  handshake: on a controller of latency \<open>L + 1\<close>, the three bytes of the write sent
  with no wait between them, after the first wait, leave every register as it was, so
  that the read returns the old byte; and the data port read with no wait for OBF, after
  the write and the two bytes of the read, gives \<open>0x00\<close>.
\<close>

theorem write_then_read_roundtrip:
  "(\<exists>w1 w2. ec_write sim_ec A V w = Some w1 \<and> ec_read sim_ec A w1 = Some (V, w2) \<and>
      regs (hw w2) = (regs (hw w))(A := V)) \<and>
   (\<exists>w2. ec_read sim_ec A
           (outb sim_ec V EC_DATA (outb sim_ec A EC_DATA (outb sim_ec 0x81 EC_SC
              (polls sim_ec (Suc (Suc L)) (sim_init r (Suc L) ok))))) = Some (r A, w2) \<and>
      regs (hw w2) = r) \<and>
   (\<exists>w1. ec_write sim_ec A V (sim_init r (Suc L) ok) = Some w1 \<and>
      fst (inb sim_ec EC_DATA (addr_sent sim_ec 0x80 A (Suc L) (Suc L) w1)) = 0x00)"
proof -
  obtain w1 where 1: "ec_write sim_ec A V w = Some w1"
    and h: "hw w1 = (hw w)\<lparr>regs := (regs (hw w))(A := V), phase := Idle, busy := latency (hw w)\<rparr>"
    using sim_ec_write_run [of A V w] by blast
  from h have "regs (hw w1) A = V" by simp
  then obtain w2 where 2: "ec_read sim_ec A w1 = Some (V, w2)"
    and h2: "hw w2 = (hw w1)\<lparr>phase := Idle, obuf := None, busy := 0\<rparr>"
    using sim_ec_read_run [of A w1] by auto
  from h h2 have "regs (hw w2) = (regs (hw w))(A := V)" by simp
  with 1 2 have a: "\<exists>w1 w2. ec_write sim_ec A V w = Some w1 \<and>
      ec_read sim_ec A w1 = Some (V, w2) \<and> regs (hw w2) = (regs (hw w))(A := V)"
    by blast
  let ?i = "sim_init r (Suc L) ok"
  have b0: "busy (hw ?i) = Suc L"
    by (simp add: sim_init_def)
  have p: "hw (polls sim_ec (Suc (Suc L)) ?i) = (hw ?i)\<lparr>busy := 0\<rparr>"
    using sim_statuses [OF b0] by blast
  let ?n = "outb sim_ec V EC_DATA (outb sim_ec A EC_DATA (outb sim_ec 0x81 EC_SC
              (polls sim_ec (Suc (Suc L)) ?i)))"
  have hn: "hw ?n = (hw ?i)\<lparr>busy := Suc L, phase := WriteCmd\<rparr>"
    by (simp only: hw_outb_sim p) (simp add: sim_outb_def sim_init_def)
  obtain w3 where 3: "ec_read sim_ec A ?n = Some (regs (hw ?n) A, w3)"
    and h3: "hw w3 = (hw ?n)\<lparr>phase := Idle, obuf := None, busy := 0\<rparr>"
    using sim_ec_read_run [of A ?n] by blast
  have "regs (hw ?n) = r"
    by (simp only: hn) (simp add: sim_init_def)
  with 3 h3 have b: "\<exists>w2. ec_read sim_ec A ?n = Some (r A, w2) \<and> regs (hw w2) = r"
    by auto
  obtain w4 where 4: "ec_write sim_ec A V ?i = Some w4"
    and h4: "hw w4 = (hw ?i)\<lparr>regs := (regs (hw ?i))(A := V), phase := Idle, busy := latency (hw ?i)\<rparr>"
    using sim_ec_write_run [of A V ?i] by blast
  from h4 have b4: "busy (hw w4) = Suc L"
    by (simp add: sim_init_def)
  let ?c = "cmd_sent sim_ec 0x80 (Suc L) w4"
  have hc: "hw ?c = (hw w4)\<lparr>busy := latency (hw w4), phase := ReadCmd\<rparr>"
    using sim_statuses [OF b4] by (simp add: cmd_sent_def hw_outb_sim sim_outb_def)
  have "latency (hw w4) = Suc L"
    using h4 by (simp add: sim_init_def)
  with hc have bc: "busy (hw ?c) = Suc L" by simp
  have "busy (hw (addr_sent sim_ec 0x80 A (Suc L) (Suc L) w4)) = Suc L"
    using sim_statuses [OF bc] hc \<open>latency (hw w4) = Suc L\<close>
    by (simp add: addr_sent_def hw_outb_sim sim_outb_def EC_SC_def EC_DATA_def)
  then have "fst (inb sim_ec EC_DATA (addr_sent sim_ec 0x80 A (Suc L) (Suc L) w4)) = 0x00"
    by (simp add: inb_def sim_ec_def sim_inb_def EC_SC_def EC_DATA_def)
  with 4 have c: "\<exists>w1. ec_write sim_ec A V ?i = Some w1 \<and>
      fst (inb sim_ec EC_DATA (addr_sent sim_ec 0x80 A (Suc L) (Suc L) w1)) = 0x00"
    by blast
  from a b c show ?thesis by blast
qed

text \<open>
  Writing \<open>0x2A\<close> to register 7 of a controller of latency 1 whose registers hold
  \<open>0x11\<close>, and reading it back.
\<close>

theorem write_then_read_roundtrip_witness:
  "\<exists>w1 w2. ec_write sim_ec 7 0x2A (sim_init (\<lambda>a. 0x11) 1 True) = Some w1 \<and>
     ec_read sim_ec 7 w1 = Some (0x2A, w2) \<and> regs (hw w2) 7 = 0x2A \<and> regs (hw w2) 8 = 0x11"
  using write_then_read_roundtrip [of 7 "0x2A" "sim_init (\<lambda>a. 0x11) 1 True" 0 "\<lambda>a. 0x11" True]
  by (auto simp: sim_init_def)

section \<open>The snapshot\<close>

lemma ec_read_transaction:
  assumes "ec_read S addr w = Some (v, w')"
  obtains t where "read_transaction addr v t" and "log w' = log w @ t"
proof -
  from ec_read_log [OF assms] obtain s1 s2 s3 where
    "ibf_gate s1" "ibf_gate s2" "obf_gate s3"
    "log w' = log w @ read_accesses addr v s1 s2 s3"
    unfolding read_accesses_def by blast
  then show thesis
    using that unfolding read_transaction_def by blast
qed

lemma dec_digit: "n < 10 \<Longrightarrow> dec n = [digit_char n]"
  by (simp add: dec.simps)

lemma and_1_cases: "(v :: u8) AND 0x01 = 0 \<or> v AND 0x01 = 1"
  by (simp add: and_one_eq mod_2_eq_odd)

lemma dec_flag: "dec (unat ((v :: u8) AND 0x01)) = (if v AND 0x01 = 0 then ''0'' else ''1'')"
  using and_1_cases [of v] by (auto simp: dec_digit digit_char_def)

lemma log_record:
  "log (interpret_register a v
      (printf (''Register 0x'' @ hex02 a @ '': 0x'' @ hex02 v @ newline) w)) =
   log w @ record_events a v"
  by (simp add: interpret_register_def printf_def record_events_def dec_flag)

lemma dump_loop_log:
  "dump_loop S i w = Some w' \<Longrightarrow>
   \<exists>rs. list_all2 (\<lambda>a (v, t). read_transaction a v t) (drop i registers) rs \<and>
        log w' = log w @ concat (map2 (\<lambda>a (v, t). t @ record_events a v) (drop i registers) rs)"
proof (induction S i w rule: dump_loop.induct)
  case (1 S i w)
  show ?case
  proof (cases "i < length registers")
    case False
    with "1.prems" show ?thesis
      by (simp add: dump_loop.simps [of S i w])
  next
    case True
    let ?a = "registers ! i"
    from True "1.prems" obtain v w1 where
      r: "ec_read S ?a w = Some (v, w1)" and
      l: "dump_loop S (i + 1) (interpret_register ?a v
            (printf (''Register 0x'' @ hex02 ?a @ '': 0x'' @ hex02 v @ newline) w1)) = Some w'"
      by (auto simp: dump_loop.simps [of S i w] split: option.splits)
    from r obtain t where t: "read_transaction ?a v t" "log w1 = log w @ t"
      by (rule ec_read_transaction)
    from "1.IH" [OF True r refl l] obtain rs where
      rs: "list_all2 (\<lambda>a (v, t). read_transaction a v t) (drop (i + 1) registers) rs"
      "log w' = log (interpret_register ?a v
            (printf (''Register 0x'' @ hex02 ?a @ '': 0x'' @ hex02 v @ newline) w1)) @
          concat (map2 (\<lambda>a (v, t). t @ record_events a v) (drop (i + 1) registers) rs)"
      by blast
    have d: "drop i registers = ?a # drop (i + 1) registers"
      using True by (simp add: Cons_nth_drop_Suc)
    have "list_all2 (\<lambda>a (v, t). read_transaction a v t) (drop i registers) ((v, t) # rs)"
      using rs(1) t(1) d by simp
    moreover have "log w' = log w @
        concat (map2 (\<lambda>a (v, t). t @ record_events a v) (drop i registers) ((v, t) # rs))"
    proof -
      have "log w' = (log w @ t) @ record_events ?a v @
          concat (map2 (\<lambda>a (v, t). t @ record_events a v) (drop (i + 1) registers) rs)"
        using rs(2) by (simp only: log_record t(2) append_assoc)
      then show ?thesis
        by (simp only: d) simp
    qed
    ultimately show ?thesis by blast
  qed
qed

lemma dump_loop_iterations:
  "i \<le> length registers \<Longrightarrow>
   ec_dump_selected S w =
     (case dump_iterations S i w of None \<Rightarrow> None | Some w1 \<Rightarrow> dump_loop S i w1)"
proof (induction i)
  case 0
  show ?case by (simp add: ec_dump_selected_def)
next
  case (Suc i)
  then have i: "i < length registers" by simp
  show ?case
  proof (cases "dump_iterations S i w")
    case None
    with Suc show ?thesis by simp
  next
    case (Some w1)
    with Suc i show ?thesis
      by (simp add: dump_loop.simps [of S i w1] split: option.splits)
  qed
qed

lemma dump_iterations_all:
  "ec_dump_selected S w = dump_iterations S (length registers) w"
proof -
  have "dump_loop S (length registers) w1 = Some w1" for w1 :: "'a world"
    by (simp add: dump_loop.simps [of S "length registers" w1])
  then show ?thesis
    using dump_loop_iterations [of "length registers" S w] by (simp split: option.splits)
qed

lemma dump_iterations_progress:
  "n \<le> length registers \<Longrightarrow>
   \<exists>k rs w1. k \<le> n \<and> dump_iterations S k w = Some w1 \<and>
     list_all2 (\<lambda>a (v, t). read_transaction a v t) (take k registers) rs \<and>
     log w1 = log w @ Stdout (''Dumping SSRM region (0x50-0x59)...'' @ newline) #
       concat (map2 (\<lambda>a (v, t). t @ record_events a v) (take k registers) rs) \<and>
     (if k = n then dump_iterations S n w = Some w1
      else dump_iterations S n w = None \<and> ec_read S (registers ! k) w1 = None)"
proof (induction n)
  case 0
  have "dump_iterations S 0 w = Some (printf (''Dumping SSRM region (0x50-0x59)...'' @ newline) w)"
    by simp
  then show ?case
    by (intro exI [of _ 0] exI [of _ "[]"]
        exI [of _ "printf (''Dumping SSRM region (0x50-0x59)...'' @ newline) w"])
      (simp add: printf_def)
next
  case (Suc n)
  then have n: "n < length registers" by simp
  from Suc obtain k rs w1 where k: "k \<le> n" and it: "dump_iterations S k w = Some w1"
    and rs: "list_all2 (\<lambda>a (v, t). read_transaction a v t) (take k registers) rs"
    and l: "log w1 = log w @ Stdout (''Dumping SSRM region (0x50-0x59)...'' @ newline) #
       concat (map2 (\<lambda>a (v, t). t @ record_events a v) (take k registers) rs)"
    and c: "if k = n then dump_iterations S n w = Some w1
      else dump_iterations S n w = None \<and> ec_read S (registers ! k) w1 = None"
    by auto
  show ?case
  proof (cases "k = n")
    case False
    with c have "dump_iterations S (Suc n) w = None" "ec_read S (registers ! k) w1 = None"
      by simp_all
    moreover from False k have "k \<le> Suc n" "k \<noteq> Suc n" by simp_all
    ultimately show ?thesis
      using it rs l by (intro exI [of _ k] exI [of _ rs] exI [of _ w1]) simp
  next
    case True
    show ?thesis
    proof (cases "ec_read S (registers ! n) w1")
      case None
      with True it have "dump_iterations S (Suc n) w = None"
        by simp
      with None True it rs l show ?thesis
        by (intro exI [of _ k] exI [of _ rs] exI [of _ w1]) simp
    next
      case (Some x)
      obtain v w2 where x: "x = (v, w2)" by (cases x)
      let ?a = "registers ! n"
      let ?w = "interpret_register ?a v
          (printf (''Register 0x'' @ hex02 ?a @ '': 0x'' @ hex02 v @ newline) w2)"
      from Some x obtain t where t: "read_transaction ?a v t" "log w2 = log w1 @ t"
        using ec_read_transaction [of S ?a w1 v w2] by blast
      have it': "dump_iterations S (Suc n) w = Some ?w"
        using True it Some x by simp
      have tk: "take (Suc n) registers = take n registers @ [?a]"
        using n by (simp add: take_Suc_conv_app_nth)
      have len: "length (take n registers) = length rs"
        using rs True by (auto dest: list_all2_lengthD)
      have rs': "list_all2 (\<lambda>a (v, t). read_transaction a v t) (take (Suc n) registers)
          (rs @ [(v, t)])"
        unfolding tk using rs True t(1) by (simp add: list_all2_appendI)
      have "log ?w = log w2 @ record_events ?a v"
        by (rule log_record)
      with t(2) l True have l': "log ?w = log w @
          Stdout (''Dumping SSRM region (0x50-0x59)...'' @ newline) #
          concat (map2 (\<lambda>a (v, t). t @ record_events a v) (take (Suc n) registers)
            (rs @ [(v, t)]))"
        unfolding tk using len by simp
      from it' rs' l' show ?thesis
        by (intro exI [of _ "Suc n"] exI [of _ "rs @ [(v, t)]"] exI [of _ ?w]) simp
    qed
  qed
qed

lemma filter_record_events:
  "filter (\<lambda>e. \<not> port_access e) (record_events a v) = record_events a v"
  by (simp add: record_events_def)

lemma sim_dump_iterations:
  fixes w :: "sim world"
  shows "k \<le> length registers \<Longrightarrow>
   \<exists>w1. dump_iterations sim_ec k w = Some w1 \<and> regs (hw w1) = regs (hw w) \<and>
     filter (\<lambda>e. \<not> port_access e) (log w1) = filter (\<lambda>e. \<not> port_access e) (log w) @
       Stdout (''Dumping SSRM region (0x50-0x59)...'' @ newline) #
       concat (map (\<lambda>a. record_events a (regs (hw w) a)) (take k registers))"
proof (induction k)
  case 0
  show ?case by (simp add: printf_def)
next
  case (Suc k)
  then have k: "k < length registers" by simp
  from Suc obtain w1 where it: "dump_iterations sim_ec k w = Some w1"
    and r1: "regs (hw w1) = regs (hw w)"
    and l1: "filter (\<lambda>e. \<not> port_access e) (log w1) = filter (\<lambda>e. \<not> port_access e) (log w) @
       Stdout (''Dumping SSRM region (0x50-0x59)...'' @ newline) #
       concat (map (\<lambda>a. record_events a (regs (hw w) a)) (take k registers))"
    by auto
  let ?a = "registers ! k"
  let ?v = "regs (hw w) ?a"
  from sim_ec_read_run [of ?a w1] r1 obtain w2 where rd: "ec_read sim_ec ?a w1 = Some (?v, w2)"
    and h2: "hw w2 = (hw w1)\<lparr>phase := Idle, obuf := None, busy := 0\<rparr>"
    and l2: "filter (\<lambda>e. \<not> port_access e) (log w2) = filter (\<lambda>e. \<not> port_access e) (log w1)"
    by auto
  let ?w = "interpret_register ?a ?v
      (printf (''Register 0x'' @ hex02 ?a @ '': 0x'' @ hex02 ?v @ newline) w2)"
  have it': "dump_iterations sim_ec (Suc k) w = Some ?w"
    using it rd by simp
  have hw': "hw ?w = hw w2"
    by (simp add: interpret_register_def printf_def)
  have "log ?w = log w2 @ record_events ?a ?v"
    by (rule log_record)
  then have "filter (\<lambda>e. \<not> port_access e) (log ?w) =
      filter (\<lambda>e. \<not> port_access e) (log w1) @ record_events ?a ?v"
    using l2 by (simp add: filter_record_events)
  with l1 have "filter (\<lambda>e. \<not> port_access e) (log ?w) =
      filter (\<lambda>e. \<not> port_access e) (log w) @
       Stdout (''Dumping SSRM region (0x50-0x59)...'' @ newline) #
       concat (map (\<lambda>a. record_events a (regs (hw w) a)) (take (Suc k) registers))"
    using k by (simp add: take_Suc_conv_app_nth)
  moreover have "regs (hw ?w) = regs (hw w)"
    using hw' h2 r1 by simp
  ultimately show ?case
    using it' by blast
qed

text \<open>
  C6. Every call of \<^verbatim>\<open>ec_dump_selected\<close>, on every machine. There is a number
  \<open>k\<close> of at most ten registers for which the call has, after the heading and in
  the order \<open>0x50\<close> to \<open>0x59\<close>, made one read-register transaction and printed the
  raw value, followed by a label only for \<open>0x50\<close> (temperature), \<open>0x51\<close> (fan
  speed) and \<open>0x52\<close> (the flag, bit 0 of the value), and nothing else. When \<open>k\<close>
  is ten the call returns; otherwise it hangs, in the transaction for the next register.
  On the simulated controller the call returns, the registers are what they were, and
  what it printed is the heading and the record of every register with the byte the
  register holds.
\<close>

theorem ec_dump_selected_records:
  "(\<exists>k rs w1. k \<le> 10 \<and> dump_iterations S k w = Some w1 \<and>
      list_all2 (\<lambda>a (v, t). read_transaction a v t)
        (take k [0x50, 0x51, 0x52, 0x53, 0x54, 0x55, 0x56, 0x57, 0x58, 0x59]) rs \<and>
      log w1 = log w @ Stdout (''Dumping SSRM region (0x50-0x59)...'' @ newline) #
        concat (map2 (\<lambda>a (v, t). t @
            Stdout (''Register 0x'' @ hex02 a @ '': 0x'' @ hex02 v @ newline) #
            (if a = 0x50 then [Stdout (''Temperature: '' @ dec (unat v) @ newline)]
             else if a = 0x51 then [Stdout (''Fan Speed: '' @ dec (unat v) @ newline)]
             else if a = 0x52 then
               [Stdout (''Flag: '' @ (if v AND 0x01 = 0 then ''0'' else ''1'') @ newline)]
             else []))
          (take k [0x50, 0x51, 0x52, 0x53, 0x54, 0x55, 0x56, 0x57, 0x58, 0x59]) rs) \<and>
      (if k = 10 then ec_dump_selected S w = Some w1
       else ec_dump_selected S w = None \<and>
            ec_read S ([0x50, 0x51, 0x52, 0x53, 0x54, 0x55, 0x56, 0x57, 0x58, 0x59] ! k) w1 =
              None)) \<and>
   (\<exists>w2. ec_dump_selected sim_ec (sim_init r L ok) = Some w2 \<and> regs (hw w2) = r \<and>
      filter (\<lambda>e. \<not> port_access e) (log w2) =
        Stdout (''Dumping SSRM region (0x50-0x59)...'' @ newline) #
        concat (map (\<lambda>a. record_events a (r a))
          [0x50, 0x51, 0x52, 0x53, 0x54, 0x55, 0x56, 0x57, 0x58, 0x59]))"
proof -
  have len: "length registers = 10"
    by (simp add: registers_def)
  note p = dump_iterations_progress [of "length registers" S w, OF order_refl,
      unfolded dump_iterations_all [symmetric], unfolded len]
  have a: "\<exists>k rs w1. k \<le> 10 \<and> dump_iterations S k w = Some w1 \<and>
      list_all2 (\<lambda>a (v, t). read_transaction a v t) (take k registers) rs \<and>
      log w1 = log w @ Stdout (''Dumping SSRM region (0x50-0x59)...'' @ newline) #
        concat (map2 (\<lambda>a (v, t). t @ record_events a v) (take k registers) rs) \<and>
      (if k = 10 then ec_dump_selected S w = Some w1
       else ec_dump_selected S w = None \<and> ec_read S (registers ! k) w1 = None)"
    by (rule p)
  from sim_dump_iterations [of "length registers" "sim_init r L ok"]
  have b: "\<exists>w2. ec_dump_selected sim_ec (sim_init r L ok) = Some w2 \<and> regs (hw w2) = r \<and>
      filter (\<lambda>e. \<not> port_access e) (log w2) =
        Stdout (''Dumping SSRM region (0x50-0x59)...'' @ newline) #
        concat (map (\<lambda>a. record_events a (r a)) registers)"
    unfolding dump_iterations_all [symmetric] by (simp add: sim_init_def)
  from a b show ?thesis
    unfolding record_events_def registers_def by blast
qed

lemma prints_filter: "prints (filter (\<lambda>e. \<not> port_access e) l) = prints l"
proof (induction l)
  case Nil
  show ?case by simp
next
  case (Cons e l)
  then show ?case by (cases e) (simp_all add: prints_def)
qed

text \<open>
  A simulated controller whose register \<open>a\<close> holds \<open>a + 1\<close>: the call returns
  and prints these fourteen lines. On the controller that never clears IBF the call
  hangs.
\<close>

theorem ec_dump_selected_records_witness:
  "(\<exists>w'. ec_dump_selected sim_ec (sim_init (\<lambda>a. a + 1) 0 True) = Some w' \<and>
      prints (log w') =
        [''Dumping SSRM region (0x50-0x59)...'' @ newline,
         ''Register 0x50: 0x51'' @ newline, ''Temperature: 81'' @ newline,
         ''Register 0x51: 0x52'' @ newline, ''Fan Speed: 82'' @ newline,
         ''Register 0x52: 0x53'' @ newline, ''Flag: 1'' @ newline,
         ''Register 0x53: 0x54'' @ newline, ''Register 0x54: 0x55'' @ newline,
         ''Register 0x55: 0x56'' @ newline, ''Register 0x56: 0x57'' @ newline,
         ''Register 0x57: 0x58'' @ newline, ''Register 0x58: 0x59'' @ newline,
         ''Register 0x59: 0x5A'' @ newline]) \<and>
   ec_dump_selected stuck_ec \<lparr>hw = (), log = []\<rparr> = None"
proof -
  note t = ec_dump_selected_records [where r = "\<lambda>a. a + 1" and L = 0 and ok = True]
  from t [of stuck_ec "\<lparr>hw = (), log = []\<rparr>"] obtain w2 where
    r: "ec_dump_selected sim_ec (sim_init (\<lambda>a. a + 1) 0 True) = Some w2" and
    f: "filter (\<lambda>e. \<not> port_access e) (log w2) =
        Stdout (''Dumping SSRM region (0x50-0x59)...'' @ newline) #
        concat (map (\<lambda>a. record_events a (a + 1))
          [0x50, 0x51, 0x52, 0x53, 0x54, 0x55, 0x56, 0x57, 0x58, 0x59])"
    by blast
  have "prints (log w2) = prints (filter (\<lambda>e. \<not> port_access e) (log w2))"
    by (simp only: prints_filter)
  also have "\<dots> =
        [''Dumping SSRM region (0x50-0x59)...'' @ newline,
         ''Register 0x50: 0x51'' @ newline, ''Temperature: 81'' @ newline,
         ''Register 0x51: 0x52'' @ newline, ''Fan Speed: 82'' @ newline,
         ''Register 0x52: 0x53'' @ newline, ''Flag: 1'' @ newline,
         ''Register 0x53: 0x54'' @ newline, ''Register 0x54: 0x55'' @ newline,
         ''Register 0x55: 0x56'' @ newline, ''Register 0x56: 0x57'' @ newline,
         ''Register 0x57: 0x58'' @ newline, ''Register 0x58: 0x59'' @ newline,
         ''Register 0x59: 0x5A'' @ newline]"
    unfolding f
    by (simp add: prints_def record_events_def hex02_def digit_char_def dec.simps newline_def)
  finally have a: "\<exists>w'. ec_dump_selected sim_ec (sim_init (\<lambda>a. a + 1) 0 True) = Some w' \<and>
      prints (log w') =
        [''Dumping SSRM region (0x50-0x59)...'' @ newline,
         ''Register 0x50: 0x51'' @ newline, ''Temperature: 81'' @ newline,
         ''Register 0x51: 0x52'' @ newline, ''Fan Speed: 82'' @ newline,
         ''Register 0x52: 0x53'' @ newline, ''Flag: 1'' @ newline,
         ''Register 0x53: 0x54'' @ newline, ''Register 0x54: 0x55'' @ newline,
         ''Register 0x55: 0x56'' @ newline, ''Register 0x56: 0x57'' @ newline,
         ''Register 0x57: 0x58'' @ newline, ''Register 0x58: 0x59'' @ newline,
         ''Register 0x59: 0x5A'' @ newline]"
    using r by blast
  from t [of stuck_ec "\<lparr>hw = (), log = []\<rparr>"] obtain k w1 where
    it: "dump_iterations stuck_ec k \<lparr>hw = (), log = []\<rparr> = Some w1" and
    c: "if k = 10 then ec_dump_selected stuck_ec \<lparr>hw = (), log = []\<rparr> = Some w1
        else ec_dump_selected stuck_ec \<lparr>hw = (), log = []\<rparr> = None \<and>
          ec_read stuck_ec
            ([0x50, 0x51, 0x52, 0x53, 0x54, 0x55, 0x56, 0x57, 0x58, 0x59] ! k) w1 = None"
    by blast
  from it have "k = 0"
    by (cases k) (simp_all add: stuck_read split: option.splits)
  with c have b: "ec_dump_selected stuck_ec \<lparr>hw = (), log = []\<rparr> = None"
    by simp
  from a b show ?thesis ..
qed

section \<open>The monitor\<close>



lemma monitor_while_unroll:
  "monitor_while S w =
     (case monitor_ticks S n w of None \<Rightarrow> None | Some w' \<Rightarrow> monitor_while S w')"
proof (induction n arbitrary: w)
  case 0
  show ?case by simp
next
  case (Suc n)
  show ?case
  proof (cases "monitor_tick S w")
    case None
    then show ?thesis
      by (simp add: monitor_while.simps [of S w])
  next
    case (Some w1)
    then show ?thesis
      using Suc.IH [of w1] by (simp add: monitor_while.simps [of S w])
  qed
qed

lemma monitor_ticks_Suc_right:
  "monitor_ticks S (Suc n) w =
     (case monitor_ticks S n w of None \<Rightarrow> None | Some w1 \<Rightarrow> monitor_tick S w1)"
proof (induction n arbitrary: w)
  case 0
  show ?case by (simp split: option.splits)
next
  case (Suc n)
  show ?case
  proof (cases "monitor_tick S w")
    case None
    then show ?thesis by simp
  next
    case (Some w1)
    then show ?thesis
      using Suc.IH [of w1] by simp
  qed
qed

lemma monitor_tick_log:
  assumes "monitor_tick S w = Some w'"
  shows "\<exists>temp t. read_transaction 0x00 temp t \<and>
           log w' = log w @ t @
             (if 75 < unat temp
              then [Stdout (''Warning: High temperature detected: '' @ dec (unat temp) @ newline)]
              else []) @ [Sleep 1]"
proof -
  from assms obtain temp w1 where r: "ec_read S 0x00 w = Some (temp, w1)"
    and w': "w' = sleep 1
            (if temp > 75
             then printf (''Warning: High temperature detected: '' @ dec (unat temp) @ newline) w1
             else w1)"
    by (auto simp: monitor_tick_def split: option.splits)
  from r obtain t where t: "read_transaction 0x00 temp t" "log w1 = log w @ t"
    by (rule ec_read_transaction)
  have c: "temp > 75 \<longleftrightarrow> 75 < unat temp"
    by (simp add: word_less_nat_alt)
  have "log w' = log w @ t @
             (if 75 < unat temp
              then [Stdout (''Warning: High temperature detected: '' @ dec (unat temp) @ newline)]
              else []) @ [Sleep 1]"
    unfolding w' using t(2) c by (simp add: sleep_def printf_def)
  with t(1) show ?thesis by blast
qed

lemma monitor_tick_None: "monitor_tick S w = None \<longleftrightarrow> ec_read S 0x00 w = None"
  by (simp add: monitor_tick_def split: option.splits)

lemma monitor_ticks_progress:
  "\<exists>k ts w1. k \<le> n \<and> monitor_ticks S k w = Some w1 \<and> length ts = k \<and>
     list_all (\<lambda>(temp, t). read_transaction 0x00 temp t) ts \<and>
     log w1 = log w @ concat (map (\<lambda>(temp, t). t @
         (if 75 < unat temp
          then [Stdout (''Warning: High temperature detected: '' @ dec (unat temp) @ newline)]
          else []) @ [Sleep 1]) ts) \<and>
     (if k = n then monitor_ticks S n w = Some w1
      else monitor_ticks S n w = None \<and> ec_read S 0x00 w1 = None)"
proof (induction n)
  case 0
  show ?case
    by (intro exI [of _ 0] exI [of _ "[]"] exI [of _ w]) simp
next
  case (Suc n)
  then obtain k ts w1 where k: "k \<le> n" and tk: "monitor_ticks S k w = Some w1"
    and len: "length ts = k"
    and ts: "list_all (\<lambda>(temp, t). read_transaction 0x00 temp t) ts"
    and l: "log w1 = log w @ concat (map (\<lambda>(temp, t). t @
         (if 75 < unat temp
          then [Stdout (''Warning: High temperature detected: '' @ dec (unat temp) @ newline)]
          else []) @ [Sleep 1]) ts)"
    and c: "if k = n then monitor_ticks S n w = Some w1
      else monitor_ticks S n w = None \<and> ec_read S 0x00 w1 = None"
    by blast
  note sr = monitor_ticks_Suc_right [of S n w]
  show ?case
  proof (cases "k = n")
    case False
    with c have "monitor_ticks S (Suc n) w = None" "ec_read S 0x00 w1 = None"
      by (simp_all only: sr option.case if_False)
    moreover from False k have "k \<le> Suc n" "k \<noteq> Suc n" by simp_all
    ultimately show ?thesis
      using tk len ts l by (intro exI [of _ k] exI [of _ ts] exI [of _ w1]) simp
  next
    case True
    with c have n: "monitor_ticks S n w = Some w1" by simp
    show ?thesis
    proof (cases "monitor_tick S w1")
      case None
      then have "ec_read S 0x00 w1 = None"
        by (simp only: monitor_tick_None)
      moreover from None n have "monitor_ticks S (Suc n) w = None"
        by (simp only: sr option.case)
      ultimately show ?thesis
        using True tk len ts l by (intro exI [of _ k] exI [of _ ts] exI [of _ w1]) simp
    next
      case (Some w2)
      from monitor_tick_log [OF Some] obtain temp t where t: "read_transaction 0x00 temp t"
        and l2: "log w2 = log w1 @ t @
             (if 75 < unat temp
              then [Stdout (''Warning: High temperature detected: '' @ dec (unat temp) @ newline)]
              else []) @ [Sleep 1]"
        by blast
      from Some n have s: "monitor_ticks S (Suc n) w = Some w2"
        by (simp only: sr option.case)
      have "log w2 = log w @ concat (map (\<lambda>(temp, t). t @
         (if 75 < unat temp
          then [Stdout (''Warning: High temperature detected: '' @ dec (unat temp) @ newline)]
          else []) @ [Sleep 1]) (ts @ [(temp, t)]))"
        using l l2 by simp
      with s t ts len True show ?thesis
        by (intro exI [of _ "Suc n"] exI [of _ "ts @ [(temp, t)]"] exI [of _ w2]) simp
    qed
  qed
qed

lemma concat_replicate_Suc_right: "concat (replicate (Suc n) x) = concat (replicate n x) @ x"
  by (induction n) simp_all

lemma sim_monitor_ticks:
  fixes w :: "sim world"
  shows "\<exists>w2. monitor_ticks sim_ec n w = Some w2 \<and> regs (hw w2) = regs (hw w) \<and>
     filter (\<lambda>e. \<not> port_access e) (log w2) = filter (\<lambda>e. \<not> port_access e) (log w) @
       concat (replicate n
         ((if 75 < unat (regs (hw w) 0x00)
           then [Stdout (''Warning: High temperature detected: '' @
                   dec (unat (regs (hw w) 0x00)) @ newline)]
           else []) @ [Sleep 1]))"
proof (induction n)
  case 0
  show ?case by simp
next
  case (Suc n)
  then obtain w1 where n: "monitor_ticks sim_ec n w = Some w1"
    and r1: "regs (hw w1) = regs (hw w)"
    and l1: "filter (\<lambda>e. \<not> port_access e) (log w1) =
       filter (\<lambda>e. \<not> port_access e) (log w) @
       concat (replicate n
         ((if 75 < unat (regs (hw w) 0x00)
           then [Stdout (''Warning: High temperature detected: '' @
                   dec (unat (regs (hw w) 0x00)) @ newline)]
           else []) @ [Sleep 1]))"
    by blast
  let ?v = "regs (hw w) 0x00"
  from sim_ec_read_run [where a = "0x00" and w = w1] r1 obtain w2 where rd: "ec_read sim_ec 0x00 w1 = Some (?v, w2)"
    and h2: "hw w2 = (hw w1)\<lparr>phase := Idle, obuf := None, busy := 0\<rparr>"
    and l2: "filter (\<lambda>e. \<not> port_access e) (log w2) = filter (\<lambda>e. \<not> port_access e) (log w1)"
    by auto
  let ?w = "sleep 1
      (if ?v > 75
       then printf (''Warning: High temperature detected: '' @ dec (unat ?v) @ newline) w2
       else w2)"
  have tick: "monitor_tick sim_ec w1 = Some ?w"
    using rd by (simp add: monitor_tick_def)
  then have s: "monitor_ticks sim_ec (Suc n) w = Some ?w"
    using n by (simp only: monitor_ticks_Suc_right option.case)
  have c: "?v > 75 \<longleftrightarrow> 75 < unat ?v"
    by (simp add: word_less_nat_alt)
  have "filter (\<lambda>e. \<not> port_access e) (log ?w) =
      filter (\<lambda>e. \<not> port_access e) (log w1) @
      (if 75 < unat ?v
       then [Stdout (''Warning: High temperature detected: '' @ dec (unat ?v) @ newline)]
       else []) @ [Sleep 1]"
    using l2 c by (simp add: sleep_def printf_def)
  with l1 have "filter (\<lambda>e. \<not> port_access e) (log ?w) =
      filter (\<lambda>e. \<not> port_access e) (log w) @
       concat (replicate (Suc n)
         ((if 75 < unat ?v
           then [Stdout (''Warning: High temperature detected: '' @ dec (unat ?v) @ newline)]
           else []) @ [Sleep 1]))"
    by (simp only: concat_replicate_Suc_right append_assoc)
  moreover have "regs (hw ?w) = regs (hw w)"
    using h2 r1 by (simp add: sleep_def printf_def)
  ultimately show ?case
    using s by blast
qed

text \<open>
  C7. The ticks of the monitor loop, on every machine and for every number \<open>n\<close>.
  Of the first \<open>n\<close> ticks some number \<open>k\<close> are complete, and each of these has
  made exactly one read-register transaction for register \<open>0x00\<close>, printed one
  warning if and only if the byte read is above 75, and slept one second, and nothing
  else; when \<open>k\<close> is less than \<open>n\<close>, the next tick hangs in its transaction and
  no later tick begins. A tick starts from the world the tick before it left and nothing
  else, and the loop is these ticks, one after the other. On the simulated controller
  every tick returns, and the \<open>n\<close> ticks print \<open>n\<close> warnings when register
  \<open>0x00\<close> holds more than 75 and none otherwise.
\<close>

theorem monitor_tick_warns_above_75:
  "(\<exists>k ts w1. k \<le> n \<and> monitor_ticks S k w = Some w1 \<and> length ts = k \<and>
      list_all (\<lambda>(temp, t). read_transaction 0x00 temp t) ts \<and>
      log w1 = log w @ concat (map (\<lambda>(temp, t). t @
          (if 75 < unat temp
           then [Stdout (''Warning: High temperature detected: '' @ dec (unat temp) @ newline)]
           else []) @ [Sleep 1]) ts) \<and>
      (if k = n then monitor_ticks S n w = Some w1
       else monitor_ticks S n w = None \<and> ec_read S 0x00 w1 = None)) \<and>
   monitor_ticks S (Suc n) w =
     (case monitor_ticks S n w of None \<Rightarrow> None | Some w1 \<Rightarrow> monitor_tick S w1) \<and>
   monitor_while S w =
     (case monitor_ticks S n w of None \<Rightarrow> None | Some w1 \<Rightarrow> monitor_while S w1) \<and>
   (\<exists>w2. monitor_ticks sim_ec n (sim_init r L ok) = Some w2 \<and>
      filter (\<lambda>e. \<not> port_access e) (log w2) =
        concat (replicate n
          ((if 75 < unat (r 0x00)
            then [Stdout (''Warning: High temperature detected: '' @ dec (unat (r 0x00)) @
                    newline)]
            else []) @ [Sleep 1])))"
proof -
  have "\<exists>w2. monitor_ticks sim_ec n (sim_init r L ok) = Some w2 \<and>
      filter (\<lambda>e. \<not> port_access e) (log w2) =
        concat (replicate n
          ((if 75 < unat (r 0x00)
            then [Stdout (''Warning: High temperature detected: '' @ dec (unat (r 0x00)) @
                    newline)]
            else []) @ [Sleep 1]))"
    using sim_monitor_ticks [of n "sim_init r L ok"] by (auto simp: sim_init_def)
  with monitor_ticks_progress [of n S w] monitor_ticks_Suc_right [of S n w]
    monitor_while_unroll [of S w n]
  show ?thesis by (intro conjI)
qed

text \<open>
  One tick on a simulated controller whose register \<open>0x00\<close> holds 80 prints one
  warning; holding 75, or 50, it prints none. On the controller that never clears IBF
  the first tick hangs.
\<close>

theorem monitor_tick_warns_above_75_witness:
  "(\<exists>w'. monitor_ticks sim_ec 1 (sim_init (\<lambda>a. 80) 0 True) = Some w' \<and>
      filter (\<lambda>e. \<not> port_access e) (log w') =
        [Stdout (''Warning: High temperature detected: 80'' @ newline), Sleep 1]) \<and>
   (\<exists>w'. monitor_ticks sim_ec 1 (sim_init (\<lambda>a. 75) 0 True) = Some w' \<and>
      filter (\<lambda>e. \<not> port_access e) (log w') = [Sleep 1]) \<and>
   (\<exists>w'. monitor_ticks sim_ec 1 (sim_init (\<lambda>a. 50) 0 True) = Some w' \<and>
      filter (\<lambda>e. \<not> port_access e) (log w') = [Sleep 1]) \<and>
   monitor_ticks stuck_ec 1 \<lparr>hw = (), log = []\<rparr> = None"
proof -
  note t = monitor_tick_warns_above_75 [where n = 1 and L = 0 and ok = True]
  have a: "\<exists>w'. monitor_ticks sim_ec 1 (sim_init (\<lambda>a. 80) 0 True) = Some w' \<and>
      filter (\<lambda>e. \<not> port_access e) (log w') =
        [Stdout (''Warning: High temperature detected: 80'' @ newline), Sleep 1]"
    using t [where r = "\<lambda>a. 80" and S = stuck_ec and w = "\<lparr>hw = (), log = []\<rparr>"]
    by (simp add: dec.simps digit_char_def)
  have b: "\<exists>w'. monitor_ticks sim_ec 1 (sim_init (\<lambda>a. 75) 0 True) = Some w' \<and>
      filter (\<lambda>e. \<not> port_access e) (log w') = [Sleep 1]"
    using t [where r = "\<lambda>a. 75" and S = stuck_ec and w = "\<lparr>hw = (), log = []\<rparr>"]
    by simp
  have c: "\<exists>w'. monitor_ticks sim_ec 1 (sim_init (\<lambda>a. 50) 0 True) = Some w' \<and>
      filter (\<lambda>e. \<not> port_access e) (log w') = [Sleep 1]"
    using t [where r = "\<lambda>a. 50" and S = stuck_ec and w = "\<lparr>hw = (), log = []\<rparr>"]
    by simp
  from t [where r = "\<lambda>a. 0" and S = stuck_ec and w = "\<lparr>hw = (), log = []\<rparr>"]
  obtain k w1 where k: "k \<le> 1" "monitor_ticks stuck_ec k \<lparr>hw = (), log = []\<rparr> = Some w1"
    and e: "if k = 1 then monitor_ticks stuck_ec 1 \<lparr>hw = (), log = []\<rparr> = Some w1
      else monitor_ticks stuck_ec 1 \<lparr>hw = (), log = []\<rparr> = None \<and>
        ec_read stuck_ec 0x00 w1 = None"
    by blast
  from k(2) have "k \<noteq> 1"
    by (auto simp: monitor_tick_def stuck_read)
  with e have d: "monitor_ticks stuck_ec 1 \<lparr>hw = (), log = []\<rparr> = None"
    by simp
  from a b c d show ?thesis by (intro conjI)
qed

lemma acpi_check_log:
  assumes "acpi_check S w = Some w'"
  shows "\<exists>v t. read_transaction 0x01 v t \<and>
           log w' = log w @ Stdout (''Checking ACPI flags...'' @ newline) # t @
             [Stdout (''ACPI Flag: 0x'' @ hex02 v @ newline)]"
proof -
  from assms obtain v w1 where
    r: "ec_read S 0x01 (printf (''Checking ACPI flags...'' @ newline) w) = Some (v, w1)"
    and w': "w' = printf (''ACPI Flag: 0x'' @ hex02 v @ newline) w1"
    by (auto simp: acpi_check_def split: option.splits)
  from r obtain t where "read_transaction 0x01 v t"
    "log w1 = log (printf (''Checking ACPI flags...'' @ newline) w) @ t"
    by (rule ec_read_transaction)
  with w' show ?thesis
    by (auto simp: printf_def)
qed

section \<open>Runs of the process\<close>

lemma run_Nil: "run S [] c = c"
  by (simp add: run_def)

lemma run_snoc: "run S (sched @ [t]) c = step S t (run S sched c)"
  by (simp add: run_def)


lemma run_invariant:
  assumes "P c" and "\<And>c t. P c \<Longrightarrow> P (step S t c)"
  shows "P (run S sched c)"
proof (induction sched rule: rev_induct)
  case Nil
  show ?case using assms(1) by (simp add: run_Nil)
next
  case (snoc t sched)
  then show ?case by (simp only: run_snoc assms(2))
qed

subsection \<open>What one step logs\<close>

lemma ec_read_step_log:
  "\<exists>e. log (snd (ec_read_step S a pc w)) = log w @ [e] \<and> port_access e \<and>
       (\<forall>v p. e = Out v p \<longrightarrow> p = EC_SC \<and> v = 0x80 \<or> p = EC_DATA \<and> v = a)"
  by (cases pc) (auto simp: ec_read_step_def inb_def outb_def split: prod.splits)

lemma log_interpret_register:
  "log (interpret_register r v w) =
     log w @ (if has_label r then tl (record_events r v) else [])"
  by (auto simp: interpret_register_def has_label_def record_events_def printf_def dec_flag)

lemma main_step_log: "\<exists>evs. log (snd (main_step S pc w)) = log w @ evs"
proof (cases pc)
  case (DumpRead i r)
  obtain e where "log (snd (ec_read_step S (registers ! i) r w)) = log w @ [e]"
    using ec_read_step_log [of S "registers ! i" r w] by blast
  with DumpRead show ?thesis
    by (auto simp: main_step_def split: prod.splits sum.splits)
next
  case (AcpiRead r)
  obtain e where "log (snd (ec_read_step S 0x01 r w)) = log w @ [e]"
    using ec_read_step_log [of S "0x01" r w] by blast
  with AcpiRead show ?thesis
    by (auto simp: main_step_def split: prod.splits sum.splits)
qed (auto simp: main_step_def ioperm_def perror_def printf_def pthread_create_def
      log_interpret_register split: prod.splits)

lemma mon_step_log: "\<exists>evs. log (snd (mon_step S pc w)) = log w @ evs"
proof (cases pc)
  case (MonRead r)
  obtain e where "log (snd (ec_read_step S 0x00 r w)) = log w @ [e]"
    using ec_read_step_log [of S "0x00" r w] by blast
  with MonRead show ?thesis
    by (auto simp: mon_step_def split: prod.splits sum.splits)
qed (auto simp: mon_step_def printf_def sleep_def)

subsection \<open>The cases of a step\<close>

lemma step_Exited: "main_at c = Exited code \<Longrightarrow> step S t c = c"
  by (simp add: step_def)

lemma step_Join:
  "main_at c = Join \<Longrightarrow> mon_at c \<noteq> MonReturned \<Longrightarrow> step S Main c = c"
  by (simp add: step_def)

lemma step_Monitor_idle:
  "mon_at c = NotCreated \<or> mon_at c = MonReturned \<Longrightarrow> step S Monitor c = c"
  by (auto simp: step_def split: main_pc.splits)

lemma step_Main:
  assumes "main_at c \<noteq> Join" and "\<And>code. main_at c \<noteq> Exited code"
  shows "step S Main c =
     c\<lparr>main_at := fst (main_step S (main_at c) (world c)),
       mon_at := (if main_at c = Create then MonStart else mon_at c),
       world := snd (main_step S (main_at c) (world c)),
       owners := owners c @ made (world c) (snd (main_step S (main_at c) (world c))) Main\<rparr>"
  using assms by (cases "main_at c") (auto simp: step_def split: prod.splits)

lemma step_Monitor:
  assumes "mon_at c \<noteq> NotCreated" and "mon_at c \<noteq> MonReturned"
    and "\<And>code. main_at c \<noteq> Exited code"
  shows "step S Monitor c =
     c\<lparr>mon_at := fst (mon_step S (mon_at c) (world c)),
       world := snd (mon_step S (mon_at c) (world c)),
       owners := owners c @ made (world c) (snd (mon_step S (mon_at c) (world c))) Monitor\<rparr>"
  using assms by (cases "main_at c") (auto simp: step_def split: prod.splits)

lemma step_cases [case_names idle main monitor returned]:
  obtains (idle) "step S t c = c"
  | (main) "t = Main" "main_at c \<noteq> Join" "\<And>code. main_at c \<noteq> Exited code"
  | (monitor) "t = Monitor" "mon_at c \<noteq> NotCreated" "mon_at c \<noteq> MonReturned"
      "\<And>code. main_at c \<noteq> Exited code"
  | (returned) "t = Main" "main_at c = Join" "mon_at c = MonReturned"
      "step S t c = c\<lparr>main_at := Exited 0\<rparr>"
proof (cases "\<exists>code. main_at c = Exited code")
  case True
  then show thesis using idle step_Exited by blast
next
  case False
  show thesis
  proof (cases t)
    case Main
    show thesis
    proof (cases "main_at c = Join")
      case True
      show thesis
      proof (cases "mon_at c = MonReturned")
        case True
        with Main \<open>main_at c = Join\<close> show thesis
          using returned by (simp add: step_def)
      next
        case False
        with Main \<open>main_at c = Join\<close> show thesis
          using idle step_Join by blast
      qed
    next
      case F: False
      with Main False show thesis using main by blast
    qed
  next
    case Monitor
    show thesis
    proof (cases "mon_at c = NotCreated \<or> mon_at c = MonReturned")
      case True
      with Monitor show thesis using idle step_Monitor_idle by blast
    next
      case F: False
      with Monitor False show thesis using monitor by blast
    qed
  qed
qed

subsection \<open>Owners and events stay aligned\<close>

lemma aligned_start: "aligned w (start w)"
  by (simp add: aligned_def start_def)

lemma aligned_extend:
  assumes "aligned w0 c" and "log w' = log (world c) @ evs"
  shows "aligned w0 (c\<lparr>main_at := a, mon_at := b, world := w',
                        owners := owners c @ made (world c) w' t\<rparr>)"
    and "aligned w0 (c\<lparr>mon_at := b, world := w', owners := owners c @ made (world c) w' t\<rparr>)"
  using assms by (auto simp: aligned_def made_def)

lemma aligned_step: "aligned w0 c \<Longrightarrow> aligned w0 (step S t c)"
proof (cases rule: step_cases [of S t c])
  case idle
  assume "aligned w0 c"
  with idle show ?thesis by simp
next
  case main
  assume a: "aligned w0 c"
  obtain evs where "log (snd (main_step S (main_at c) (world c))) = log (world c) @ evs"
    using main_step_log by blast
  from aligned_extend(1) [OF a this] show ?thesis
    using main by (simp add: step_Main)
next
  case monitor
  assume a: "aligned w0 c"
  obtain evs where "log (snd (mon_step S (mon_at c) (world c))) = log (world c) @ evs"
    using mon_step_log by blast
  from aligned_extend(2) [OF a this] show ?thesis
    using monitor by (simp add: step_Monitor)
next
  case returned
  assume "aligned w0 c"
  with returned show ?thesis by (simp add: aligned_def)
qed

lemma aligned_main: "aligned w (main S sched w)"
  unfolding main_def by (rule run_invariant) (simp_all add: aligned_start aligned_step)

lemma aligned_tagged:
  assumes "aligned w0 c"
  shows "log (world c) = log w0 @ map snd (tagged c)" and "map fst (tagged c) = owners c"
proof -
  from assms obtain evs where e: "log (world c) = log w0 @ evs" "length evs = length (owners c)"
    by (auto simp: aligned_def)
  then have "tagged c = zip (owners c) evs"
    by (simp add: tagged_def)
  with e show "log (world c) = log w0 @ map snd (tagged c)" and "map fst (tagged c) = owners c"
    by simp_all
qed

lemma tagged_extend:
  assumes "aligned w0 c" and "log w' = log (world c) @ evs"
  shows "tagged (c\<lparr>main_at := a, mon_at := b, world := w',
                    owners := owners c @ made (world c) w' t\<rparr>) = tagged c @ map (Pair t) evs"
    and "tagged (c\<lparr>mon_at := b, world := w', owners := owners c @ made (world c) w' t\<rparr>) =
           tagged c @ map (Pair t) evs"
proof -
  from assms(1) obtain es where e: "log (world c) = log w0 @ es" "length es = length (owners c)"
    by (auto simp: aligned_def)
  have z: "zip (replicate (length evs) t) evs = map (Pair t) evs"
    by (induction evs) simp_all
  from e assms(2) z
  show "tagged (c\<lparr>main_at := a, mon_at := b, world := w',
                    owners := owners c @ made (world c) w' t\<rparr>) = tagged c @ map (Pair t) evs"
    and "tagged (c\<lparr>mon_at := b, world := w', owners := owners c @ made (world c) w' t\<rparr>) =
           tagged c @ map (Pair t) evs"
    by (simp_all add: tagged_def made_def)
qed

lemma tagged_grow:
  assumes "aligned w0 c" and "log (world c') = log (world c) @ evs"
    and "owners c' = owners c @ made (world c) (world c') t"
  shows "tagged c' = tagged c @ map (Pair t) evs" and "aligned w0 c'"
proof -
  from assms(1) obtain es where e: "log (world c) = log w0 @ es" "length es = length (owners c)"
    by (auto simp: aligned_def)
  have z: "zip (replicate (length evs) t) evs = map (Pair t) evs"
    by (induction evs) simp_all
  from e assms(2,3) z show "tagged c' = tagged c @ map (Pair t) evs"
    by (simp add: tagged_def made_def)
  from e assms(2,3) show "aligned w0 c'"
    by (simp add: aligned_def made_def)
qed

section \<open>The program only reads\<close>

lemma main_step_wf: "main_wf pc \<Longrightarrow> main_wf (fst (main_step S pc w))"
  by (cases pc) (auto simp: main_step_def dump_next_def split: prod.splits sum.splits)

lemma main_step_read_only:
  assumes "main_wf pc" and "log (snd (main_step S pc w)) = log w @ evs"
  shows "list_all read_only evs"
proof (cases pc)
  case (DumpRead i r)
  obtain e where e: "log (snd (ec_read_step S (registers ! i) r w)) = log w @ [e]"
    "\<forall>v p. e = Out v p \<longrightarrow> p = EC_SC \<and> v = 0x80 \<or> p = EC_DATA \<and> v = registers ! i"
    using ec_read_step_log [of S "registers ! i" r w] by blast
  from DumpRead assms(1) have "registers ! i \<in> set registers" by simp
  with e(2) have "read_only e" by (cases e) auto
  moreover from DumpRead assms(2) e(1) have "evs = [e]"
    by (auto simp: main_step_def split: prod.splits sum.splits)
  ultimately show ?thesis by simp
next
  case (AcpiRead r)
  obtain e where e: "log (snd (ec_read_step S 0x01 r w)) = log w @ [e]"
    "\<forall>v p. e = Out v p \<longrightarrow> p = EC_SC \<and> v = 0x80 \<or> p = EC_DATA \<and> v = 0x01"
    using ec_read_step_log [of S "0x01" r w] by blast
  from e(2) have "read_only e" by (cases e) auto
  moreover from AcpiRead assms(2) e(1) have "evs = [e]"
    by (auto simp: main_step_def split: prod.splits sum.splits)
  ultimately show ?thesis by simp
qed (use assms(2) in \<open>auto simp: main_step_def ioperm_def perror_def printf_def pthread_create_def
      log_interpret_register record_events_def split: prod.splits if_splits\<close>)

lemma mon_step_read_only:
  assumes "log (snd (mon_step S pc w)) = log w @ evs"
  shows "list_all read_only evs"
proof (cases pc)
  case (MonRead r)
  obtain e where e: "log (snd (ec_read_step S 0x00 r w)) = log w @ [e]"
    "\<forall>v p. e = Out v p \<longrightarrow> p = EC_SC \<and> v = 0x80 \<or> p = EC_DATA \<and> v = 0x00"
    using ec_read_step_log [of S "0x00" r w] by blast
  from e(2) have "read_only e" by (cases e) auto
  moreover from MonRead assms e(1) have "evs = [e]"
    by (auto simp: mon_step_def split: prod.splits sum.splits)
  ultimately show ?thesis by simp
qed (use assms in \<open>auto simp: mon_step_def printf_def sleep_def\<close>)

lemma read_only_step:
  assumes "aligned w0 c \<and> main_wf (main_at c) \<and> list_all read_only (map snd (tagged c))"
  shows "aligned w0 (step S t c) \<and> main_wf (main_at (step S t c)) \<and>
         list_all read_only (map snd (tagged (step S t c)))"
proof (cases rule: step_cases [of S t c])
  case idle
  with assms show ?thesis by simp
next
  case main
  obtain evs where e: "log (snd (main_step S (main_at c) (world c))) = log (world c) @ evs"
    using main_step_log by blast
  from assms have a: "aligned w0 c" and wf: "main_wf (main_at c)" by simp_all
  have "list_all read_only evs"
    using wf e by (rule main_step_read_only)
  moreover have "main_wf (fst (main_step S (main_at c) (world c)))"
    using wf by (rule main_step_wf)
  ultimately show ?thesis
    using assms main aligned_step [OF a, of S t] tagged_extend(1) [OF a e]
    by (simp add: step_Main comp_def)
next
  case monitor
  obtain evs where e: "log (snd (mon_step S (mon_at c) (world c))) = log (world c) @ evs"
    using mon_step_log by blast
  from assms have a: "aligned w0 c" by simp
  have "list_all read_only evs"
    using e by (rule mon_step_read_only)
  then show ?thesis
    using assms monitor aligned_step [OF a, of S t] tagged_extend(2) [OF a e]
    by (simp add: step_Monitor comp_def)
next
  case returned
  with assms show ?thesis
    by (simp add: aligned_def tagged_def)
qed

lemma read_only_main:
  "list_all read_only (map snd (tagged (main S sched w)))"
proof -
  have "aligned w (main S sched w) \<and> main_wf (main_at (main S sched w)) \<and>
        list_all read_only (map snd (tagged (main S sched w)))"
    unfolding main_def
  proof (rule run_invariant)
    show "aligned w (start w) \<and> main_wf (main_at (start w)) \<and>
        list_all read_only (map snd (tagged (start w)))"
      using aligned_start [of w] by (simp add: tagged_def start_def)
  next
    fix c t
    assume "aligned w c \<and> main_wf (main_at c) \<and> list_all read_only (map snd (tagged c))"
    then show "aligned w (step S t c) \<and> main_wf (main_at (step S t c)) \<and>
         list_all read_only (map snd (tagged (step S t c)))"
      by (rule read_only_step)
  qed
  then show ?thesis by simp
qed

subsection \<open>The registers of the simulated controller\<close>

lemma sim_untouched_ec_read_step:
  assumes "sim_untouched r (hw w)"
  shows "sim_untouched r (hw (snd (ec_read_step sim_ec a pc w)))"
  using assms
  by (cases pc)
    (auto simp: sim_untouched_def ec_read_step_def inb_def outb_def sim_ec_def sim_inb_def
      sim_outb_def EC_SC_def EC_DATA_def split: prod.splits option.splits)

lemma sim_untouched_main_step:
  assumes "sim_untouched r (hw w)"
  shows "sim_untouched r (hw (snd (main_step sim_ec pc w)))"
proof (cases pc)
  case (DumpRead i x)
  with sim_untouched_ec_read_step [OF assms, of "registers ! i" x] show ?thesis
    by (auto simp: main_step_def split: prod.splits sum.splits)
next
  case (AcpiRead x)
  with sim_untouched_ec_read_step [OF assms, of "0x01" x] show ?thesis
    by (auto simp: main_step_def split: prod.splits sum.splits)
qed (use assms in \<open>auto simp: main_step_def ioperm_def perror_def printf_def pthread_create_def
      interpret_register_def sim_ec_def sim_ioperm_def sim_untouched_def split: prod.splits\<close>)

lemma sim_untouched_mon_step:
  assumes "sim_untouched r (hw w)"
  shows "sim_untouched r (hw (snd (mon_step sim_ec pc w)))"
proof (cases pc)
  case (MonRead x)
  with sim_untouched_ec_read_step [OF assms, of "0x00" x] show ?thesis
    by (auto simp: mon_step_def split: prod.splits sum.splits)
qed (use assms in \<open>auto simp: mon_step_def printf_def sleep_def\<close>)

lemma sim_untouched_step:
  assumes "sim_untouched r (hw (world c))"
  shows "sim_untouched r (hw (world (step sim_ec t c)))"
proof (cases rule: step_cases [of sim_ec t c])
  case idle
  with assms show ?thesis by simp
next
  case main
  with sim_untouched_main_step [OF assms, of "main_at c"] show ?thesis
    by (simp add: step_Main)
next
  case monitor
  with sim_untouched_mon_step [OF assms, of "mon_at c"] show ?thesis
    by (simp add: step_Monitor)
next
  case returned
  with assms show ?thesis by simp
qed

lemma sim_untouched_main:
  assumes "sim_untouched r (hw w)"
  shows "sim_untouched r (hw (world (main sim_ec sched w)))"
  unfolding main_def
  by (rule run_invariant) (simp_all add: assms start_def sim_untouched_step)

text \<open>
  C10. Whatever the machine and the scheduler do, and however long the process has
  run: every port write the program has made is the read command \<open>0x80\<close> to the
  command port or, to the data port, one of the addresses \<open>0x50\<close> to \<open>0x59\<close>, \<open>0x00\<close>,
  \<open>0x01\<close>. The write command \<open>0x81\<close> is never sent; and the registers of a simulated
  controller that was not inside a write are what they were.
\<close>

theorem main_never_writes_a_register:
  "log (world (main S sched w)) = log w @ map snd (tagged (main S sched w)) \<and>
   (\<forall>v p. Out v p \<in> set (map snd (tagged (main S sched w))) \<longrightarrow>
      p = EC_SC \<and> v = 0x80 \<or>
      p = EC_DATA \<and> (v \<in> {0x50, 0x51, 0x52, 0x53, 0x54, 0x55, 0x56, 0x57, 0x58, 0x59} \<or>
                      v = 0x00 \<or> v = 0x01)) \<and>
   Out 0x81 EC_SC \<notin> set (map snd (tagged (main S sched w))) \<and>
   (phase (hw ws) = Idle \<longrightarrow> regs (hw (world (main sim_ec sched ws))) = regs (hw ws))"
proof -
  let ?evs = "map snd (tagged (main S sched w))"
  have l: "log (world (main S sched w)) = log w @ ?evs"
    using aligned_main by (rule aligned_tagged(1))
  have ro: "list_all read_only ?evs"
    by (rule read_only_main)
  have o: "p = EC_SC \<and> v = 0x80 \<or>
      p = EC_DATA \<and> (v \<in> {0x50, 0x51, 0x52, 0x53, 0x54, 0x55, 0x56, 0x57, 0x58, 0x59} \<or>
                      v = 0x00 \<or> v = 0x01)" if "Out v p \<in> set ?evs" for v p
  proof -
    from ro that have "read_only (Out v p)"
      by (simp only: list_all_iff)
    then show ?thesis
      by (simp add: registers_def)
  qed
  have n: "Out 0x81 EC_SC \<notin> set ?evs"
  proof
    assume "Out 0x81 EC_SC \<in> set ?evs"
    from o [OF this] show False
      by (simp add: EC_SC_def EC_DATA_def)
  qed
  have s: "regs (hw (world (main sim_ec sched ws))) = regs (hw ws)" if "phase (hw ws) = Idle"
  proof -
    from that have "sim_untouched (regs (hw ws)) (hw ws)"
      by (simp add: sim_untouched_def)
    then have "sim_untouched (regs (hw ws)) (hw (world (main sim_ec sched ws)))"
      by (rule sim_untouched_main)
    then show ?thesis
      by (simp add: sim_untouched_def)
  qed
  from l o n s show ?thesis by blast
qed

section \<open>The history of the main thread\<close>

lemma zip_snoc_nth:
  "length ys < length xs \<Longrightarrow> zip xs (ys @ [y]) = zip xs ys @ [(xs ! length ys, y)]"
proof (induction xs arbitrary: ys)
  case Nil
  then show ?case by simp
next
  case (Cons x xs)
  then show ?case by (cases ys) simp_all
qed

lemma dump_done_length: "dump_done i rs \<Longrightarrow> length rs = i"
  by (auto simp: dump_done_def dest: list_all2_lengthD)

lemma dump_done_0: "dump_done 0 []"
  by (simp add: dump_done_def)

lemma dump_done_Suc:
  assumes "dump_done i rs" and "i < length registers"
    and "read_transaction (registers ! i) v tr"
  shows "dump_done (Suc i) (rs @ [(v, tr)])"
    and "snapshot_events (rs @ [(v, tr)]) =
           snapshot_events rs @ tr @ record_events (registers ! i) v"
proof -
  from assms(1) have len: "length rs = i"
    by (rule dump_done_length)
  have "take (Suc i) registers = take i registers @ [registers ! i]"
    using assms(2) by (simp add: take_Suc_conv_app_nth)
  with assms show "dump_done (Suc i) (rs @ [(v, tr)])"
    by (simp add: dump_done_def list_all2_appendI)
  have "zip registers (rs @ [(v, tr)]) = zip registers rs @ [(registers ! i, (v, tr))]"
    using zip_snoc_nth [of rs registers "(v, tr)"] len assms(2) by simp
  then show "snapshot_events (rs @ [(v, tr)]) =
           snapshot_events rs @ tr @ record_events (registers ! i) v"
    by (simp add: snapshot_events_def)
qed

lemma snapshot_events_Nil:
  "snapshot_events [] = [Stdout (''Dumping SSRM region (0x50-0x59)...'' @ newline)]"
  by (simp add: snapshot_events_def)

lemma record_events_hd_tl:
  "record_events a v =
     Stdout (''Register 0x'' @ hex02 a @ '': 0x'' @ hex02 v @ newline) # tl (record_events a v)"
  by (simp add: record_events_def)

lemma record_events_no_label:
  "\<not> has_label a \<Longrightarrow>
   record_events a v = [Stdout (''Register 0x'' @ hex02 a @ '': 0x'' @ hex02 v @ newline)]"
  by (simp add: record_events_def has_label_def)

lemma main_trace_dump_next:
  assumes "dump_done i rs" and "i < length registers"
    and "read_transaction (registers ! i) v tr"
  shows "main_trace (dump_next (Suc i))
           (granted_events @ snapshot_events rs @ tr @ record_events (registers ! i) v)"
proof -
  have d: "dump_done (Suc i) (rs @ [(v, tr)])"
    and s: "snapshot_events (rs @ [(v, tr)]) =
           snapshot_events rs @ tr @ record_events (registers ! i) v"
    using assms by (rule dump_done_Suc)+
  show ?thesis
  proof (cases "Suc i < length registers")
    case True
    from at_DumpRead [OF d True rd_progress_start] True show ?thesis
      by (simp add: dump_next_def s)
  next
    case False
    with assms(2) have "Suc i = length registers" by simp
    with d have "dump_done (length registers) (rs @ [(v, tr)])" by simp
    from at_Create [OF this] False show ?thesis
      by (simp add: dump_next_def s)
  qed
qed

lemma main_trace_step:
  assumes "main_trace pc t" and "main_step S pc w = (pc', w')"
  shows "\<exists>evs. log w' = log w @ evs \<and> main_trace pc' (t @ evs)"
  using assms(1)
proof cases
  case at_InitSc
  obtain r w1 where i: "ioperm S EC_SC 1 1 w = (r, w1)" by (cases "ioperm S EC_SC 1 1 w")
  then have l: "log w1 = log w @ [Ioperm EC_SC 1 1 r]"
    by (auto simp: ioperm_def split: prod.splits)
  from at_InitSc assms(2) i have "pc' = (if r \<noteq> 0 then InitFail else InitData)" "w' = w1"
    by (simp_all add: main_step_def)
  with l at_InitSc show ?thesis
    by (auto intro: main_trace.intros simp del: One_nat_def)
next
  case at_InitData
  obtain r w1 where i: "ioperm S EC_DATA 1 1 w = (r, w1)" by (cases "ioperm S EC_DATA 1 1 w")
  then have l: "log w1 = log w @ [Ioperm EC_DATA 1 1 r]"
    by (auto simp: ioperm_def split: prod.splits)
  from at_InitData assms(2) i have "pc' = (if r \<noteq> 0 then InitFail else DumpPrint)" "w' = w1"
    by (simp_all add: main_step_def)
  with l at_InitData show ?thesis
    using main_trace.at_DumpPrint
    by (auto intro: main_trace.intros simp: granted_events_def simp del: One_nat_def)
next
  case (at_InitFail1 r)
  with assms(2) have "pc' = Exited 1" "w' = perror ''ioperm'' w"
    by (simp_all add: main_step_def)
  with at_InitFail1 show ?thesis
    by (auto intro: main_trace.intros simp: perror_def simp del: One_nat_def)
next
  case (at_InitFail2 r)
  with assms(2) have "pc' = Exited 1" "w' = perror ''ioperm'' w"
    by (simp_all add: main_step_def)
  with at_InitFail2 show ?thesis
    by (auto intro: main_trace.intros simp: perror_def simp del: One_nat_def)
next
  case (at_Exited1 r)
  with assms show ?thesis by (simp add: main_step_def)
next
  case (at_Exited2 r)
  with assms show ?thesis by (simp add: main_step_def)
next
  case at_DumpPrint
  with assms(2) have p: "pc' = DumpRead 0 RdWaitIbf1"
    and w': "w' = printf (''Dumping SSRM region (0x50-0x59)...'' @ newline) w"
    by (simp_all add: main_step_def dump_next_def registers_def)
  have "0 < length registers" by (simp add: registers_def)
  from at_DumpRead [OF dump_done_0 this rd_progress_start]
  have "main_trace (DumpRead 0 RdWaitIbf1)
      (granted_events @ [Stdout (''Dumping SSRM region (0x50-0x59)...'' @ newline)])"
    by (simp add: snapshot_events_Nil)
  with p w' at_DumpPrint show ?thesis
    by (simp add: printf_def)
next
  case (at_DumpRead i rs r tr)
  obtain x w1 where s: "ec_read_step S (registers ! i) r w = (x, w1)"
    by (cases "ec_read_step S (registers ! i) r w")
  from rd_progress_step [OF at_DumpRead(5) s] obtain e where l: "log w1 = log w @ [e]"
    and c: "case x of Inl r' \<Rightarrow> rd_progress (registers ! i) r' (tr @ [e])
                    | Inr v \<Rightarrow> read_transaction (registers ! i) v (tr @ [e])"
    by blast
  show ?thesis
  proof (cases x)
    case (Inl r')
    with at_DumpRead assms(2) s have "pc' = DumpRead i r'" "w' = w1"
      by (simp_all add: main_step_def)
    moreover from c Inl have "rd_progress (registers ! i) r' (tr @ [e])" by simp
    from main_trace.at_DumpRead [OF at_DumpRead(3,4) this]
    have "main_trace (DumpRead i r') (t @ [e])"
      using at_DumpRead(2) by simp
    ultimately show ?thesis using l by blast
  next
    case (Inr v)
    with at_DumpRead assms(2) s have "pc' = DumpLine i v" "w' = w1"
      by (simp_all add: main_step_def)
    moreover from c Inr have "read_transaction (registers ! i) v (tr @ [e])" by simp
    from main_trace.at_DumpLine [OF at_DumpRead(3,4) this]
    have "main_trace (DumpLine i v) (t @ [e])"
      using at_DumpRead(2) by simp
    ultimately show ?thesis using l by blast
  qed
next
  case (at_DumpLine i rs v tr)
  let ?line = "Stdout (''Register 0x'' @ hex02 (registers ! i) @ '': 0x'' @ hex02 v @ newline)"
  from at_DumpLine assms(2)
  have p: "pc' = (if has_label (registers ! i) then DumpLabel i v else dump_next (i + 1))"
    and w': "log w' = log w @ [?line]"
    by (auto simp: main_step_def printf_def)
  have "main_trace pc' (t @ [?line])"
  proof (cases "has_label (registers ! i)")
    case True
    from at_DumpLabel [OF at_DumpLine(3,4) True at_DumpLine(5)] True p at_DumpLine(2)
    show ?thesis
      by (simp add: record_events_def)
  next
    case False
    from main_trace_dump_next [OF at_DumpLine(3,4,5)] False p at_DumpLine(2)
    show ?thesis
      by (simp add: record_events_no_label)
  qed
  with w' show ?thesis by blast
next
  case (at_DumpLabel i rs v tr)
  from at_DumpLabel assms(2) have p: "pc' = dump_next (Suc i)"
    and w': "log w' = log w @ tl (record_events (registers ! i) v)"
    by (auto simp: main_step_def log_interpret_register)
  have "[hd (record_events (registers ! i) v)] @ tl (record_events (registers ! i) v) =
      record_events (registers ! i) v"
    by (simp add: record_events_def)
  then have "t @ tl (record_events (registers ! i) v) =
      granted_events @ snapshot_events rs @ tr @ record_events (registers ! i) v"
    using at_DumpLabel(2) by simp
  with main_trace_dump_next [OF at_DumpLabel(3,4,6)] p
  have "main_trace pc' (t @ tl (record_events (registers ! i) v))" by simp
  with w' show ?thesis by blast
next
  case (at_Create rs)
  with assms(2) have "pc' = AcpiPrint" "log w' = log w @ [ThreadCreate]"
    by (auto simp: main_step_def pthread_create_def)
  with at_AcpiPrint [OF at_Create(3)] at_Create(2) show ?thesis
    by auto
next
  case (at_AcpiPrint rs)
  with assms(2) have "pc' = AcpiRead RdWaitIbf1"
    "log w' = log w @ [Stdout (''Checking ACPI flags...'' @ newline)]"
    by (auto simp: main_step_def printf_def)
  with at_AcpiRead [OF at_AcpiPrint(3) rd_progress_start] at_AcpiPrint(2) show ?thesis
    by auto
next
  case (at_AcpiRead rs r tr)
  obtain x w1 where s: "ec_read_step S 0x01 r w = (x, w1)"
    by (cases "ec_read_step S 0x01 r w")
  from rd_progress_step [OF at_AcpiRead(4) s] obtain e where l: "log w1 = log w @ [e]"
    and c: "case x of Inl r' \<Rightarrow> rd_progress 0x01 r' (tr @ [e])
                    | Inr v \<Rightarrow> read_transaction 0x01 v (tr @ [e])"
    by blast
  show ?thesis
  proof (cases x)
    case (Inl r')
    with at_AcpiRead assms(2) s have "pc' = AcpiRead r'" "w' = w1"
      by (simp_all add: main_step_def)
    moreover from c Inl have "rd_progress 0x01 r' (tr @ [e])" by simp
    from main_trace.at_AcpiRead [OF at_AcpiRead(3) this]
    have "main_trace (AcpiRead r') (t @ [e])"
      using at_AcpiRead(2) by simp
    ultimately show ?thesis using l by blast
  next
    case (Inr v)
    with at_AcpiRead assms(2) s have "pc' = AcpiReport v" "w' = w1"
      by (simp_all add: main_step_def)
    moreover from c Inr have "read_transaction 0x01 v (tr @ [e])" by simp
    from main_trace.at_AcpiReport [OF at_AcpiRead(3) this]
    have "main_trace (AcpiReport v) (t @ [e])"
      using at_AcpiRead(2) by simp
    ultimately show ?thesis using l by blast
  qed
next
  case (at_AcpiReport rs v tr)
  with assms(2) have "pc' = Join"
    "log w' = log w @ [Stdout (''ACPI Flag: 0x'' @ hex02 v @ newline)]"
    by (auto simp: main_step_def printf_def)
  with at_Join [OF at_AcpiReport(3,4)] at_AcpiReport(2) show ?thesis
    by (auto simp: coordinator_events_def)
next
  case (at_Join rs v tr)
  with assms show ?thesis by (simp add: main_step_def)
qed

subsection \<open>The history is kept by every step\<close>

lemma before_create_dump_next: "before_create (dump_next i)"
  by (simp add: dump_next_def)

lemma main_step_create:
  assumes "main_step S pc w = (pc', w')" and "log w' = log w @ evs"
  shows "if pc = Create then evs = [ThreadCreate] \<and> pc' = AcpiPrint
         else ThreadCreate \<notin> set evs \<and> (before_create pc' \<longleftrightarrow> before_create pc)"
proof (cases pc)
  case (DumpRead i r)
  obtain e where "log (snd (ec_read_step S (registers ! i) r w)) = log w @ [e]" "port_access e"
    using ec_read_step_log [of S "registers ! i" r w] by blast
  with DumpRead assms show ?thesis
    by (auto simp: main_step_def split: prod.splits sum.splits)
next
  case (AcpiRead r)
  obtain e where "log (snd (ec_read_step S 0x01 r w)) = log w @ [e]" "port_access e"
    using ec_read_step_log [of S "0x01" r w] by blast
  with AcpiRead assms show ?thesis
    by (auto simp: main_step_def split: prod.splits sum.splits)
next
  case (DumpLabel i v)
  with assms show ?thesis
    by (auto simp: main_step_def log_interpret_register record_events_def
        before_create_dump_next split: if_splits)
qed (use assms in \<open>auto simp: main_step_def ioperm_def perror_def printf_def
      pthread_create_def before_create_dump_next split: prod.splits if_splits\<close>)

lemma mon_step_create:
  assumes "mon_step S pc w = (pc', w')" and "log w' = log w @ evs"
  shows "ThreadCreate \<notin> set evs \<and> (pc \<noteq> MonReturned \<longrightarrow> pc' \<noteq> MonReturned) \<and>
         (pc \<noteq> NotCreated \<longrightarrow> pc' \<noteq> NotCreated)"
proof (cases pc)
  case (MonRead r)
  obtain e where "log (snd (ec_read_step S 0x00 r w)) = log w @ [e]" "port_access e"
    using ec_read_step_log [of S "0x00" r w] by blast
  with MonRead assms show ?thesis
    by (auto simp: mon_step_def split: prod.splits sum.splits if_splits)
qed (use assms in \<open>auto simp: mon_step_def printf_def sleep_def\<close>)

lemma main_step_init:
  assumes "main_step S pc w = (pc', w')"
  shows "(pc' = InitSc \<longrightarrow> pc = InitSc \<and> False) \<and>
         (pc' = InitData \<longrightarrow> pc = InitSc) \<and>
         (pc' = InitFail \<longrightarrow> pc = InitSc \<or> pc = InitData) \<and>
         (\<forall>code. pc' = Exited code \<longrightarrow> pc = InitFail \<and> code = 1 \<or> pc = Exited code)"
  using assms
  by (cases pc)
    (auto simp: main_step_def dump_next_def split: prod.splits sum.splits if_splits)

lemma history_start: "history S w (start w)"
  using aligned_start [of w]
  by (simp add: history_def start_def events_of_def tagged_def created_once_def init_state_def
      main_trace.at_InitSc)

lemma history_main_step:
  assumes h: "history S w0 c" and "main_at c \<noteq> Join" and "\<And>code. main_at c \<noteq> Exited code"
  shows "history S w0 (step S Main c)"
proof -
  from h have a: "aligned w0 c" and m: "mon_at c \<noteq> MonReturned"
    and tr: "main_trace (main_at c) (events_of Main c)" and co: "created_once c"
    and ini: "init_state S w0 c"
    by (simp_all add: history_def)
  obtain pc' w' where ms: "main_step S (main_at c) (world c) = (pc', w')"
    by (cases "main_step S (main_at c) (world c)")
  define c' where "c' = step S Main c"
  have sel: "main_at c' = pc'" "mon_at c' = (if main_at c = Create then MonStart else mon_at c)"
    "world c' = w'" "owners c' = owners c @ made (world c) (world c') Main"
    unfolding c'_def using assms(2,3) ms by (simp_all add: step_Main)
  from main_trace_step [OF tr ms] obtain evs where
    l: "log w' = log (world c) @ evs" and tr': "main_trace pc' (events_of Main c @ evs)"
    by blast
  from l sel(3) have l': "log (world c') = log (world c) @ evs" by simp
  have tg: "tagged c' = tagged c @ map (Pair Main) evs" and a': "aligned w0 c'"
    using a l' sel(4) by (rule tagged_grow)+
  have ev: "events_of Main c' = events_of Main c @ evs"
    by (simp add: events_of_def tg comp_def)
  have cr: "if main_at c = Create then evs = [ThreadCreate] \<and> pc' = AcpiPrint
         else ThreadCreate \<notin> set evs \<and> (before_create pc' \<longleftrightarrow> before_create (main_at c))"
    using ms l by (rule main_step_create)
  have co': "created_once c'"
  proof (cases "main_at c = Create")
    case True
    with co have all: "\<forall>x \<in> set (tagged c). fst x = Main \<and> snd x \<noteq> ThreadCreate"
      by (simp add: created_once_def)
    from True cr have "tagged c' = tagged c @ (Main, ThreadCreate) # []"
      by (simp add: tg)
    with all have "\<exists>pre post. tagged c' = pre @ (Main, ThreadCreate) # post \<and>
        (\<forall>x \<in> set pre. fst x = Main \<and> snd x \<noteq> ThreadCreate) \<and>
        (\<forall>x \<in> set post. snd x \<noteq> ThreadCreate)"
      by (intro exI [of _ "tagged c"] exI [of _ "[]"]) simp
    with True cr show ?thesis
      by (simp add: created_once_def sel)
  next
    case False
    show ?thesis
    proof (cases "before_create (main_at c)")
      case True
      with co cr False show ?thesis
        by (auto simp: created_once_def tg sel)
    next
      case nb: False
      with co obtain pre post where
        "tagged c = pre @ (Main, ThreadCreate) # post"
        "\<forall>x \<in> set pre. fst x = Main \<and> snd x \<noteq> ThreadCreate"
        "\<forall>x \<in> set post. snd x \<noteq> ThreadCreate"
        by (auto simp: created_once_def)
      then have "tagged c' = pre @ (Main, ThreadCreate) # (post @ map (Pair Main) evs) \<and>
        (\<forall>x \<in> set pre. fst x = Main \<and> snd x \<noteq> ThreadCreate) \<and>
        (\<forall>x \<in> set (post @ map (Pair Main) evs). snd x \<noteq> ThreadCreate)"
        using cr False by (auto simp: tg)
      then have "\<exists>pre post. tagged c' = pre @ (Main, ThreadCreate) # post \<and>
        (\<forall>x \<in> set pre. fst x = Main \<and> snd x \<noteq> ThreadCreate) \<and>
        (\<forall>x \<in> set post. snd x \<noteq> ThreadCreate)"
        by blast
      with co cr False nb show ?thesis
        by (simp add: created_once_def sel)
    qed
  qed
  have ini': "init_state S w0 c'"
  proof -
    note mi = main_step_init [OF ms]
    have 1: "pc' \<noteq> InitSc" using mi by blast
    have 2: "fst (ioperm S EC_SC 1 1 w0) = 0 \<and> w' = snd (ioperm S EC_SC 1 1 w0)"
      if "pc' = InitData"
    proof -
      from that mi have "main_at c = InitSc" by blast
      with ini have "world c = w0" by (simp add: init_state_def)
      with ms \<open>main_at c = InitSc\<close> that show ?thesis
        by (auto simp: main_step_def split: prod.splits if_splits)
    qed
    have 3: "permission_denied S w0" if "pc' = InitFail"
    proof -
      from that mi consider "main_at c = InitSc" | "main_at c = InitData" by blast
      then show ?thesis
      proof cases
        case 1
        with ini have "world c = w0" by (simp add: init_state_def)
        with ms 1 that show ?thesis
          by (auto simp: main_step_def permission_denied_def split: prod.splits if_splits)
      next
        case 2
        with ini have "fst (ioperm S EC_SC 1 1 w0) = 0" "world c = snd (ioperm S EC_SC 1 1 w0)"
          by (simp_all add: init_state_def)
        with ms 2 that show ?thesis
          by (auto simp: main_step_def permission_denied_def split: prod.splits if_splits)
      qed
    qed
    have 4: "permission_denied S w0 \<and> code = 1" if "pc' = Exited code" for code
    proof -
      from that mi assms(3) have "main_at c = InitFail" "code = 1" by blast+
      with ini show ?thesis by (simp add: init_state_def)
    qed
    have 5: "pc' = InitData \<or> pc' = InitFail \<or> pc' = Exited 1" if d: "permission_denied S w0"
    proof -
      from ini d assms(3) consider "main_at c = InitSc" | "main_at c = InitData"
        | "main_at c = InitFail"
        by (auto simp: init_state_def)
      then show ?thesis
      proof cases
        case 1
        with ms show ?thesis
          by (auto simp: main_step_def split: prod.splits if_splits)
      next
        case 2
        with ini have "fst (ioperm S EC_SC 1 1 w0) = 0" "world c = snd (ioperm S EC_SC 1 1 w0)"
          by (simp_all add: init_state_def)
        with d have "fst (ioperm S EC_DATA 1 1 (world c)) \<noteq> 0"
          by (simp add: permission_denied_def)
        with ms 2 show ?thesis
          by (auto simp: main_step_def split: prod.splits if_splits)
      next
        case 3
        with ms show ?thesis
          by (auto simp: main_step_def)
      qed
    qed
    from 1 2 3 4 5 show ?thesis
      by (auto simp: init_state_def sel)
  qed
  have "mon_at c' \<noteq> MonReturned"
    using m by (simp add: sel)
  with a' tr' co' ini' ev show ?thesis
    unfolding c'_def [symmetric] history_def by (simp add: sel)
qed

lemma history_monitor_step:
  assumes h: "history S w0 c" and "mon_at c \<noteq> NotCreated"
    and "\<And>code. main_at c \<noteq> Exited code"
  shows "history S w0 (step S Monitor c)"
proof -
  from h have a: "aligned w0 c" and m: "mon_at c \<noteq> MonReturned"
    and tr: "main_trace (main_at c) (events_of Main c)" and co: "created_once c"
    and ini: "init_state S w0 c"
    by (simp_all add: history_def)
  obtain pc' w' where ms: "mon_step S (mon_at c) (world c) = (pc', w')"
    by (cases "mon_step S (mon_at c) (world c)")
  define c' where "c' = step S Monitor c"
  have sel: "main_at c' = main_at c" "mon_at c' = pc'"
    "world c' = w'" "owners c' = owners c @ made (world c) (world c') Monitor"
    unfolding c'_def using assms(2,3) m ms by (simp_all add: step_Monitor)
  obtain evs where l: "log w' = log (world c) @ evs"
    using mon_step_log [of S "mon_at c" "world c"] ms by auto
  from l sel(3) have l': "log (world c') = log (world c) @ evs" by simp
  have mc: "ThreadCreate \<notin> set evs" "pc' \<noteq> MonReturned" "pc' \<noteq> NotCreated"
    using mon_step_create [OF ms l] m assms(2) by simp_all
  have tg: "tagged c' = tagged c @ map (Pair Monitor) evs" and a': "aligned w0 c'"
    using a l' sel(4) by (rule tagged_grow)+
  have ev: "events_of Main c' = events_of Main c"
    by (simp add: events_of_def tg)
  from co assms(2) have nb: "\<not> before_create (main_at c)"
    by (simp add: created_once_def)
  with co obtain pre post where
    "tagged c = pre @ (Main, ThreadCreate) # post"
    "\<forall>x \<in> set pre. fst x = Main \<and> snd x \<noteq> ThreadCreate"
    "\<forall>x \<in> set post. snd x \<noteq> ThreadCreate"
    by (auto simp: created_once_def)
  then have "tagged c' = pre @ (Main, ThreadCreate) # (post @ map (Pair Monitor) evs) \<and>
    (\<forall>x \<in> set pre. fst x = Main \<and> snd x \<noteq> ThreadCreate) \<and>
    (\<forall>x \<in> set (post @ map (Pair Monitor) evs). snd x \<noteq> ThreadCreate)"
    using mc(1) by (auto simp: tg)
  then have "\<exists>pre post. tagged c' = pre @ (Main, ThreadCreate) # post \<and>
    (\<forall>x \<in> set pre. fst x = Main \<and> snd x \<noteq> ThreadCreate) \<and>
    (\<forall>x \<in> set post. snd x \<noteq> ThreadCreate)"
    by blast
  with nb mc(3) have co': "created_once c'"
    by (simp add: created_once_def sel)
  from nb have "main_at c \<noteq> InitSc" "main_at c \<noteq> InitData" "main_at c \<noteq> InitFail"
    by auto
  with ini have ini': "init_state S w0 c'"
    by (simp add: init_state_def sel)
  from a' mc(2) tr ev co' ini' show ?thesis
    unfolding c'_def [symmetric] history_def by (simp add: sel)
qed

lemma history_step: "history S w0 c \<Longrightarrow> history S w0 (step S t c)"
proof (cases rule: step_cases [of S t c])
  case idle
  assume "history S w0 c"
  with idle show ?thesis by simp
next
  case main
  assume "history S w0 c"
  with main show ?thesis
    by (simp add: history_main_step)
next
  case monitor
  assume "history S w0 c"
  with monitor show ?thesis
    by (simp add: history_monitor_step)
next
  case returned
  assume "history S w0 c"
  with returned show ?thesis
    by (simp add: history_def)
qed

lemma history_run: "history S w0 c \<Longrightarrow> history S w0 (run S sched c)"
  by (rule run_invariant) (simp_all add: history_step)

lemma history_main: "history S w (main S sched w)"
  unfolding main_def by (rule history_run) (rule history_start)

section \<open>Permission\<close>




section \<open>The main thread before the creation and the functions it calls\<close>









subsection \<open>Refusal is fatal\<close>






section \<open>The order of the coordinator\<close>








lemma created_once_takeWhile:
  assumes "created_once c"
  shows "\<forall>x \<in> set (takeWhile (\<lambda>x. snd x \<noteq> ThreadCreate) (tagged c)). fst x = Main"
    and "mon_at c = NotCreated \<longleftrightarrow> ThreadCreate \<notin> set (map snd (tagged c))"
proof -
  show "\<forall>x \<in> set (takeWhile (\<lambda>x. snd x \<noteq> ThreadCreate) (tagged c)). fst x = Main"
  proof (cases "before_create (main_at c)")
    case True
    with assms have "\<forall>x \<in> set (tagged c). fst x = Main"
      by (simp add: created_once_def)
    then show ?thesis
      by (meson set_takeWhileD)
  next
    case False
    with assms obtain pre post where
      t: "tagged c = pre @ (Main, ThreadCreate) # post"
      and p: "\<forall>x \<in> set pre. fst x = Main \<and> snd x \<noteq> ThreadCreate"
      by (auto simp: created_once_def)
    from p have "takeWhile (\<lambda>x. snd x \<noteq> ThreadCreate) (pre @ (Main, ThreadCreate) # post) = pre"
      by (simp add: takeWhile_append2)
    with t p show ?thesis by simp
  qed
  show "mon_at c = NotCreated \<longleftrightarrow> ThreadCreate \<notin> set (map snd (tagged c))"
  proof (cases "before_create (main_at c)")
    case True
    with assms show ?thesis
      by (auto simp: created_once_def)
  next
    case False
    with assms show ?thesis
      by (force simp: created_once_def)
  qed
qed



section \<open>Nothing serialises the two threads\<close>

lemma serialized_one_thread:
  assumes "\<forall>x \<in> set l. fst x = t" and "holder = None \<or> holder = Some t"
  shows "serialized_from holder l"
  using assms
proof (induction l arbitrary: holder)
  case Nil
  show ?case by simp
next
  case (Cons x l)
  obtain u e where x: "x = (u, e)" by (cases x)
  with Cons.prems have u: "u = t" by simp
  from Cons.prems have l: "\<forall>x \<in> set l. fst x = t" by simp
  show ?case
    using Cons.prems(2) Cons.IH [OF l] unfolding x u by simp
qed

lemma acpi_read_step_event:
  assumes "aligned w0 c" and "main_at c = AcpiRead r"
  shows "\<exists>e. port_access e \<and> tagged (step S Main c) = tagged c @ [(Main, e)]"
proof -
  obtain x w' where rs: "ec_read_step S 0x01 r (world c) = (x, w')"
    by (cases "ec_read_step S 0x01 r (world c)")
  obtain e where e: "log (snd (ec_read_step S 0x01 r (world c))) = log (world c) @ [e]"
    "port_access e"
    using ec_read_step_log [of S "0x01" r "world c"] by blast
  have w: "snd (main_step S (main_at c) (world c)) = w'"
    using assms(2) rs by (cases x) (simp_all add: main_step_def)
  have sel: "world (step S Main c) = w'"
    "owners (step S Main c) = owners c @ made (world c) (world (step S Main c)) Main"
    using assms(2) w by (simp_all add: step_Main)
  from e(1) rs sel(1) have "log (world (step S Main c)) = log (world c) @ [e]" by simp
  from tagged_grow(1) [OF assms(1) this sel(2)] e(2) show ?thesis by auto
qed

lemma mon_read_step_event:
  assumes "aligned w0 c" and "mon_at c = MonRead r" and "\<And>code. main_at c \<noteq> Exited code"
  shows "\<exists>e. port_access e \<and> tagged (step S Monitor c) = tagged c @ [(Monitor, e)]"
proof -
  obtain x w' where rs: "ec_read_step S 0x00 r (world c) = (x, w')"
    by (cases "ec_read_step S 0x00 r (world c)")
  obtain e where e: "log (snd (ec_read_step S 0x00 r (world c))) = log (world c) @ [e]"
    "port_access e"
    using ec_read_step_log [of S "0x00" r "world c"] by blast
  have w: "snd (mon_step S (mon_at c) (world c)) = w'"
    using assms(2) rs by (cases x) (simp_all add: mon_step_def)
  have sel: "world (step S Monitor c) = w'"
    "owners (step S Monitor c) = owners c @ made (world c) (world (step S Monitor c)) Monitor"
    using assms(2,3) w by (simp_all add: step_Monitor)
  from e(1) rs sel(1) have "log (world (step S Monitor c)) = log (world c) @ [e]" by simp
  from tagged_grow(1) [OF assms(1) this sel(2)] e(2) show ?thesis by auto
qed

text \<open>
  C3, as the code has it. The source takes no lock. Port accesses cannot interleave
  only while the process has one thread: everything logged before \<^verbatim>\<open>pthread_create\<close>,
  so every access of the ten snapshot transactions, is the main thread's, one transaction
  after the other. After the creation nothing makes one thread wait for the other:
  whenever the main thread is inside the diagnostic read and the monitor inside a read,
  the scheduler can let either of them make its next port access.
\<close>

theorem only_the_snapshot_is_serialized:
  "serialized (filter (\<lambda>x. port_access (snd x))
      (takeWhile (\<lambda>x. snd x \<noteq> ThreadCreate) (tagged (main S sched w)))) \<and>
   (main_at (main S sched w) = AcpiRead r \<and> mon_at (main S sched w) = MonRead r' \<longrightarrow>
      (\<exists>e. port_access e \<and>
           tagged (step S Main (main S sched w)) = tagged (main S sched w) @ [(Main, e)]) \<and>
      (\<exists>e. port_access e \<and>
           tagged (step S Monitor (main S sched w)) = tagged (main S sched w) @ [(Monitor, e)]))"
proof -
  let ?c = "main S sched w"
  have h: "history S w ?c" by (rule history_main)
  then have co: "created_once ?c" and al: "aligned w ?c"
    by (simp_all add: history_def)
  have "\<forall>x \<in> set (filter (\<lambda>x. port_access (snd x))
      (takeWhile (\<lambda>x. snd x \<noteq> ThreadCreate) (tagged ?c))). fst x = Main"
    using created_once_takeWhile(1) [OF co] by simp
  then have 1: "serialized (filter (\<lambda>x. port_access (snd x))
      (takeWhile (\<lambda>x. snd x \<noteq> ThreadCreate) (tagged ?c)))"
    unfolding serialized_def by (rule serialized_one_thread) simp
  have 2: "(\<exists>e. port_access e \<and> tagged (step S Main ?c) = tagged ?c @ [(Main, e)]) \<and>
      (\<exists>e. port_access e \<and> tagged (step S Monitor ?c) = tagged ?c @ [(Monitor, e)])"
    if "main_at ?c = AcpiRead r" and "mon_at ?c = MonRead r'"
    using acpi_read_step_event [OF al that(1)] mon_read_step_event [OF al that(2)] that(1)
    by simp
  from 1 2 show ?thesis by blast
qed

theorem only_the_snapshot_is_serialized_witness:
  "main_at (main sim_ec (replicate 79 Main @ [Monitor, Monitor]) (sim_init demo_regs 0 True)) =
     AcpiRead RdCmd \<and>
   mon_at (main sim_ec (replicate 79 Main @ [Monitor, Monitor]) (sim_init demo_regs 0 True)) =
     MonRead RdCmd \<and>
   (\<exists>e. port_access e \<and>
      tagged (step sim_ec Main
        (main sim_ec (replicate 79 Main @ [Monitor, Monitor]) (sim_init demo_regs 0 True))) =
      tagged (main sim_ec (replicate 79 Main @ [Monitor, Monitor]) (sim_init demo_regs 0 True)) @
        [(Main, e)]) \<and>
   (\<exists>e. port_access e \<and>
      tagged (step sim_ec Monitor
        (main sim_ec (replicate 79 Main @ [Monitor, Monitor]) (sim_init demo_regs 0 True))) =
      tagged (main sim_ec (replicate 79 Main @ [Monitor, Monitor]) (sim_init demo_regs 0 True)) @
        [(Monitor, e)])"
proof -
  have "main_at (main sim_ec (replicate 79 Main @ [Monitor, Monitor])
        (sim_init demo_regs 0 True)) = AcpiRead RdCmd \<and>
      mon_at (main sim_ec (replicate 79 Main @ [Monitor, Monitor])
        (sim_init demo_regs 0 True)) = MonRead RdCmd"
    by code_simp
  with only_the_snapshot_is_serialized
    [of sim_ec "replicate 79 Main @ [Monitor, Monitor]" "sim_init demo_regs 0 True" RdCmd RdCmd]
  show ?thesis by blast
qed

text \<open>
  C3, as the claim states it, fails. On the simulated controller, under the schedule
  \<open>demo_sched\<close>, the accesses of the diagnostic read of register \<open>0x01\<close> and of the
  monitor's read of register \<open>0x00\<close> alternate: the monitor's command byte lands
  between the main thread's command and address, and the monitor then reads \<open>0xAA\<close>,
  the byte of register \<open>0x01\<close> that the main thread had asked for. The listing starts
  after the sixty accesses of the snapshot.
\<close>

theorem transactions_interleave_counterexample:
  "drop 60 (accesses (main sim_ec demo_sched (sim_init demo_regs 0 True))) =
     [(Main, In 0x66 0), (Monitor, In 0x66 0),
      (Main, Out 0x80 0x66), (Monitor, Out 0x80 0x66),
      (Main, In 0x66 0), (Main, Out 0x01 0x62),
      (Monitor, In 0x66 1), (Monitor, Out 0x00 0x62),
      (Monitor, In 0x66 1), (Monitor, In 0x62 0xAA)] \<and>
   \<not> serialized (accesses (main sim_ec demo_sched (sim_init demo_regs 0 True)))"
  by code_simp

text \<open>
  The same run, for C10: the read command is sent, the write command is not, and the
  registers of the controller are what they were.
\<close>

theorem main_never_writes_a_register_witness:
  "Out 0x80 EC_SC \<in> set (map snd (tagged (main sim_ec demo_sched (sim_init demo_regs 0 True)))) \<and>
   Out 0x81 EC_SC \<notin> set (map snd (tagged (main sim_ec demo_sched (sim_init demo_regs 0 True)))) \<and>
   phase (hw (sim_init demo_regs 0 True)) = Idle \<and>
   regs (hw (world (main sim_ec demo_sched (sim_init demo_regs 0 True)))) = demo_regs"
proof -
  have m: "Out 0x80 EC_SC \<in>
      set (map snd (tagged (main sim_ec demo_sched (sim_init demo_regs 0 True))))"
    by code_simp
  have p: "phase (hw (sim_init demo_regs 0 True)) = Idle"
    and r: "regs (hw (sim_init demo_regs 0 True)) = demo_regs"
    by (simp_all add: sim_init_def)
  from main_never_writes_a_register
    [of sim_ec demo_sched "sim_init demo_regs 0 True" "sim_init demo_regs 0 True"] m p r
  show ?thesis by simp
qed

end
